theory Spec2Isabelle
  imports Complex_Main "HOL-Library.Stream" "HOL-Library.Multiset"
begin

section \<open>Data model\<close>

text \<open>
  The optimiser of \<^verbatim>\<open>SpindleSimulation.cpp\<close> is embedded as HOL functions.
  A C++ \<^verbatim>\<open>double\<close> is read as a real number (rounding, NaN and overflow are not
  modelled); the only non-finite value the optimiser itself writes, the crowding distance
  \<^verbatim>\<open>std::numeric_limits<double>::infinity()\<close>, has a constructor of its own.
  \<^verbatim>\<open>int\<close> is \<open>int\<close>, \<^verbatim>\<open>size_t\<close> is \<open>nat\<close>, \<^verbatim>\<open>std::string\<close> is \<open>string\<close>,
  \<^verbatim>\<open>std::vector\<close> is a list.
\<close>

record SpindleParameters =
  spindleType :: string
  powerRating :: real
  maxSpeed :: int
  wheelDiameter :: real
  bearingType :: string
  bearingPreload :: real
  coolingType :: string
  lubricationType :: string
  toolInterface :: string
  alignmentTolerance :: real

text \<open>The default constructor \<^verbatim>\<open>SpindleParameters()\<close>: empty strings, zero numbers.\<close>

definition defaultParameters :: SpindleParameters where
  "defaultParameters =
     \<lparr>spindleType = [], powerRating = 0, maxSpeed = 0, wheelDiameter = 0, bearingType = [],
      bearingPreload = 0, coolingType = [], lubricationType = [], toolInterface = [],
      alignmentTolerance = 0\<rparr>"

text \<open>A \<^verbatim>\<open>double\<close> that may be \<open>+\<infinity>\<close>, with the two operations the code applies to it.\<close>

datatype xdouble = Finite real | Infinity

fun xadd :: "xdouble \<Rightarrow> real \<Rightarrow> xdouble" where
  "xadd (Finite a) d = Finite (a + d)"
| "xadd Infinity d = Infinity"

fun xgreater :: "xdouble \<Rightarrow> xdouble \<Rightarrow> bool" where
  "xgreater (Finite a) (Finite b) = (a > b)"
| "xgreater Infinity (Finite b) = True"
| "xgreater a Infinity = False"

record Individual =
  params :: SpindleParameters
  objectives :: "real list"
  rank :: int
  crowdingDistance :: xdouble

text \<open>\<^verbatim>\<open>Individual() : rank(0), crowdingDistance(0.0) {}\<close>\<close>

definition newIndividual :: Individual where
  "newIndividual =
     \<lparr>params = defaultParameters, objectives = [], rank = 0, crowdingDistance = Finite 0\<rparr>"

datatype error = Invalid_argument string | Runtime_error string

subsection \<open>The random source\<close>

text \<open>
  \<^verbatim>\<open>mutable std::mt19937 rng\<close> is the one random source of a \<^verbatim>\<open>SpindleSimulation\<close>.
  Its state is modelled by the stream of numbers that
  \<^verbatim>\<open>std::uniform_real_distribution<double> dist(0.0, 1.0)\<close> will still return from it:
  \<^verbatim>\<open>dist(rng)\<close> takes the head and leaves the tail. The distribution returns values of
  \<open>[0, 1)\<close>, which is \<open>rng_ok\<close>.
\<close>

type_synonym rng = "real stream"

definition dist_rng :: "rng \<Rightarrow> real \<times> rng" where
  "dist_rng g = (shd g, stl g)"

definition rng_ok :: "rng \<Rightarrow> bool" where
  "rng_ok g \<longleftrightarrow> (\<forall>x \<in> sset g. 0 \<le> x \<and> x < 1)"

text \<open>\<^verbatim>\<open>static_cast<int>(x)\<close> truncates towards zero.\<close>

definition static_cast_int :: "real \<Rightarrow> int" where
  "static_cast_int x = (if 0 \<le> x then \<lfloor>x\<rfloor> else \<lceil>x\<rceil>)"

subsection \<open>The parameter space\<close>

definition spindleTypes :: "string list" where
  "spindleTypes = [''Belt-Driven'', ''Direct-Drive'', ''Motorized'']"

definition bearingTypes :: "string list" where
  "bearingTypes = [''Angular Contact'', ''Hybrid Ceramic'']"

definition coolingTypes :: "string list" where
  "coolingTypes = [''Liquid'', ''Air'']"

definition lubricationTypes :: "string list" where
  "lubricationTypes = [''Grease'', ''Oil-Mist'', ''Oil-Air'']"

definition toolInterfaces :: "string list" where
  "toolInterfaces = [''Precision Collet'', ''Hydraulic Chuck'', ''HSK'']"

text \<open>
  \<^verbatim>\<open>choices[static_cast<int>(dist(rng) * choices.size())]\<close>. Reading a vector out of range is
  undefined in C++; the model returns the empty string there, which belongs to no enumeration.
\<close>

definition pick :: "string list \<Rightarrow> real \<Rightarrow> string" where
  "pick choices r =
     (let i = static_cast_int (r * real (length choices))
      in if 0 \<le> i \<and> i < int (length choices) then choices ! nat i else [])"

text \<open>The bounds of \<^verbatim>\<open>validateParameters\<close> and the five enumerations.\<close>

definition inParameterSpace :: "SpindleParameters \<Rightarrow> bool" where
  "inParameterSpace p \<longleftrightarrow>
     1/2 \<le> powerRating p \<and> powerRating p \<le> 50 \<and>
     1000 \<le> maxSpeed p \<and> maxSpeed p \<le> 30000 \<and>
     50 \<le> wheelDiameter p \<and> wheelDiameter p \<le> 1000 \<and>
     100 \<le> bearingPreload p \<and> bearingPreload p \<le> 2000 \<and>
     1/10000 \<le> alignmentTolerance p \<and> alignmentTolerance p \<le> 1/100 \<and>
     spindleType p \<in> set spindleTypes \<and>
     bearingType p \<in> set bearingTypes \<and>
     coolingType p \<in> set coolingTypes \<and>
     lubricationType p \<in> set lubricationTypes \<and>
     toolInterface p \<in> set toolInterfaces"

section \<open>Variation operators\<close>

subsection \<open>generateRandomParameters\<close>

definition generateRandomParameters :: "rng \<Rightarrow> SpindleParameters \<times> rng" where
  "generateRandomParameters g0 =
     (let (r1, g1) = dist_rng g0;
          (r2, g2) = dist_rng g1;
          (r3, g3) = dist_rng g2;
          (r4, g4) = dist_rng g3;
          (r5, g5) = dist_rng g4;
          (r6, g6) = dist_rng g5;
          (r7, g7) = dist_rng g6;
          (r8, g8) = dist_rng g7;
          (r9, g9) = dist_rng g8;
          (r10, g10) = dist_rng g9
      in (\<lparr>spindleType = pick spindleTypes r6,
           powerRating = 0.5 + r1 * (50.0 - 0.5),
           maxSpeed = static_cast_int (1000 + r2 * (30000 - 1000)),
           wheelDiameter = 50.0 + r3 * (1000.0 - 50.0),
           bearingType = pick bearingTypes r7,
           bearingPreload = 100.0 + r4 * (2000.0 - 100.0),
           coolingType = pick coolingTypes r8,
           lubricationType = pick lubricationTypes r9,
           toolInterface = pick toolInterfaces r10,
           alignmentTolerance = 0.0001 + r5 * (0.01 - 0.0001)\<rparr>, g10))"

subsection \<open>crossover\<close>

text \<open>The lambda \<^verbatim>\<open>blend\<close> of \<^verbatim>\<open>crossover\<close>; \<open>r\<close> is the value of its \<^verbatim>\<open>dist(rng)\<close>.\<close>

definition blend :: "real \<Rightarrow> real \<Rightarrow> real \<Rightarrow> real \<Rightarrow> real \<Rightarrow> real" where
  "blend p1 p2 mn mx r =
     (let alpha = 0.5;
          d = \<bar>p1 - p2\<bar>;
          lower = min p1 p2 - alpha * d;
          upper = max p1 p2 + alpha * d
      in max mn (min mx (lower + r * (upper - lower))))"

definition crossover :: "Individual \<Rightarrow> Individual \<Rightarrow> rng \<Rightarrow> Individual \<times> rng" where
  "crossover parent1 parent2 g0 =
     (let p1 = params parent1; p2 = params parent2;
          (r1, g1) = dist_rng g0;
          (r2, g2) = dist_rng g1;
          (r3, g3) = dist_rng g2;
          (r4, g4) = dist_rng g3;
          (r5, g5) = dist_rng g4;
          (r6, g6) = dist_rng g5;
          (r7, g7) = dist_rng g6;
          (r8, g8) = dist_rng g7;
          (r9, g9) = dist_rng g8;
          (r10, g10) = dist_rng g9
      in (newIndividual\<lparr>params :=
           \<lparr>spindleType = (if r6 < 0.5 then spindleType p1 else spindleType p2),
            powerRating = blend (powerRating p1) (powerRating p2) 0.5 50.0 r1,
            maxSpeed = static_cast_int
              (blend (real_of_int (maxSpeed p1)) (real_of_int (maxSpeed p2)) 1000 30000 r2),
            wheelDiameter = blend (wheelDiameter p1) (wheelDiameter p2) 50.0 1000.0 r3,
            bearingType = (if r7 < 0.5 then bearingType p1 else bearingType p2),
            bearingPreload = blend (bearingPreload p1) (bearingPreload p2) 100.0 2000.0 r4,
            coolingType = (if r8 < 0.5 then coolingType p1 else coolingType p2),
            lubricationType = (if r9 < 0.5 then lubricationType p1 else lubricationType p2),
            toolInterface = (if r10 < 0.5 then toolInterface p1 else toolInterface p2),
            alignmentTolerance =
              blend (alignmentTolerance p1) (alignmentTolerance p2) 0.0001 0.01 r5\<rparr>\<rparr>, g10))"

subsection \<open>mutate\<close>

text \<open>
  The lambda \<^verbatim>\<open>mutateContinuous\<close> (\<^verbatim>\<open>mutationProb = 0.1\<close>, \<^verbatim>\<open>eta = 20.0\<close>): one draw decides
  whether the field mutates, a second one is made only when it does.
\<close>

definition mutateContinuous :: "real \<Rightarrow> real \<Rightarrow> real \<Rightarrow> rng \<Rightarrow> real \<times> rng" where
  "mutateContinuous val mn mx g0 =
     (let eta = 20.0; (r, g1) = dist_rng g0
      in if r \<ge> 0.1 then (val, g1)
         else
           (let delta1 = (val - mn) / (mx - mn);
                delta2 = (mx - val) / (mx - mn);
                (rand, g2) = dist_rng g1;
                deltaq = (if rand \<le> 0.5
                          then (2.0 * rand) powr (1.0 / (eta + 1.0)) - 1.0
                          else 1.0 - (2.0 * (1.0 - rand)) powr (1.0 / (eta + 1.0)));
                delta = (if deltaq < 0 then delta1 else delta2) * deltaq
            in (max mn (min mx (val + delta * (mx - mn))), g2)))"

text \<open>A categorical field of \<^verbatim>\<open>mutate\<close>: resampled with probability \<open>0.1\<close>.\<close>

definition mutateCategorical :: "string list \<Rightarrow> string \<Rightarrow> rng \<Rightarrow> string \<times> rng" where
  "mutateCategorical choices val g0 =
     (let (r, g1) = dist_rng g0
      in if r < 0.1 then (let (r', g2) = dist_rng g1 in (pick choices r', g2))
         else (val, g1))"

definition mutate :: "Individual \<Rightarrow> rng \<Rightarrow> Individual \<times> rng" where
  "mutate ind g0 =
     (let p = params ind;
          (v1, g1) = mutateContinuous (powerRating p) 0.5 50.0 g0;
          (v2, g2) = mutateContinuous (real_of_int (maxSpeed p)) 1000 30000 g1;
          (v3, g3) = mutateContinuous (wheelDiameter p) 50.0 1000.0 g2;
          (v4, g4) = mutateContinuous (bearingPreload p) 100.0 2000.0 g3;
          (v5, g5) = mutateContinuous (alignmentTolerance p) 0.0001 0.01 g4;
          (c1, g6) = mutateCategorical spindleTypes (spindleType p) g5;
          (c2, g7) = mutateCategorical bearingTypes (bearingType p) g6;
          (c3, g8) = mutateCategorical coolingTypes (coolingType p) g7;
          (c4, g9) = mutateCategorical lubricationTypes (lubricationType p) g8;
          (c5, g10) = mutateCategorical toolInterfaces (toolInterface p) g9
      in (ind\<lparr>params :=
           \<lparr>spindleType = c1, powerRating = v1, maxSpeed = static_cast_int v2,
            wheelDiameter = v3, bearingType = c2, bearingPreload = v4, coolingType = c3,
            lubricationType = c4, toolInterface = c5, alignmentTolerance = v5\<rparr>\<rparr>, g10))"

section \<open>The objective oracle\<close>

text \<open>
  The formulas of \<^verbatim>\<open>estimateVibration\<close>, \<^verbatim>\<open>estimateTemperatureRise\<close>, \<^verbatim>\<open>estimateLoad\<close>,
  \<^verbatim>\<open>calculateBearingL10Life\<close>, \<^verbatim>\<open>calculateWheelWear\<close> and \<^verbatim>\<open>calculateWearInducedVibration\<close>,
  over the reals (\<^verbatim>\<open>M_PI\<close> is \<open>pi\<close>; a division by zero, which gives an infinity or NaN in
  C++, is \<open>0\<close> in HOL and does not occur for parameters inside their bounds).
\<close>

definition estimateTemperatureRise :: "SpindleParameters \<Rightarrow> real" where
  "estimateTemperatureRise p =
     (let baseTemp = (if coolingType p = ''Liquid'' then 18.0 else 22.0);
          speedFactor = real_of_int (maxSpeed p) / 10000.0;
          preloadFactor = bearingPreload p / 500.0
      in baseTemp + (speedFactor * 5.0) + (preloadFactor * 2.0))"

definition estimateVibration :: "SpindleParameters \<Rightarrow> real" where
  "estimateVibration p =
     (let baseVibration = (if bearingType p = ''Hybrid Ceramic'' then 0.4 else 0.6);
          speedFactor = real_of_int (maxSpeed p) / 10000.0;
          alignmentFactor = (if alignmentTolerance p > 0.002 then 1.2 else 1.0);
          toolFactor = (if toolInterface p = ''HSK'' then 0.9 else 1.0)
      in baseVibration * speedFactor * alignmentFactor * toolFactor)"

definition estimateLoad :: "SpindleParameters \<Rightarrow> real" where
  "estimateLoad p = (wheelDiameter p / 1000.0) * (real_of_int (maxSpeed p) / 1000.0) * 100.0"

text \<open>
  The loop of \<^verbatim>\<open>generateDynamicLoadProfile\<close>, \<^verbatim>\<open>for (int i = 0; i < steps; ++i)\<close>: one
  draw and one \<^verbatim>\<open>push_back\<close> for every step.
\<close>

function loadProfileLoop :: "real \<Rightarrow> int \<Rightarrow> int \<Rightarrow> real list \<Rightarrow> rng \<Rightarrow> real list \<times> rng" where
  "loadProfileLoop baseLoad steps i loadProfile g =
     (if i < steps then
        (let timeStep = 0.1;
             time = real_of_int i * timeStep;
             variation = sin (2 * pi * time / 2.0) * 0.3;
             load = baseLoad * (1.0 + variation);
             (r, g') = dist_rng g;
             load' = (if r < 0.1 then load * 1.5 else load)
         in loadProfileLoop baseLoad steps (i + 1) (loadProfile @ [max 0.0 load']) g')
      else (loadProfile, g))"
  by pat_completeness auto
termination
  by (relation "measure (\<lambda>(baseLoad, steps, i, loadProfile, g). nat (steps - i))") auto

definition generateDynamicLoadProfile ::
  "SpindleParameters \<Rightarrow> real \<Rightarrow> real \<Rightarrow> rng \<Rightarrow> real list \<times> rng" where
  "generateDynamicLoadProfile p duration loadFactor g =
     (let baseLoad = estimateLoad p * loadFactor;
          timeStep = 0.1;
          steps = static_cast_int (duration / timeStep)
      in loadProfileLoop baseLoad steps 0 [] g)"

definition calculateBearingL10Life :: "SpindleParameters \<Rightarrow> real list \<Rightarrow> real" where
  "calculateBearingL10Life p loadProfile =
     (let C = (if bearingType p = ''Hybrid Ceramic'' then 50.0 else 40.0);
          avgLoad = sum_list loadProfile / real (length loadProfile);
          P = (avgLoad + bearingPreload p) / 1000.0;
          f1 = (if lubricationType p = ''Grease'' then 1.0 * 0.8
                else if lubricationType p = ''Oil-Air'' then 1.0 * 1.2 else 1.0);
          lifeAdjustmentFactor = (if coolingType p = ''Liquid'' then f1 * 1.1 else f1);
          L10 = (C / P) ^ 3 * 1000000;
          L10h = L10 / (60.0 * real_of_int (maxSpeed p)) * lifeAdjustmentFactor
      in max 1000.0 L10h)"

definition calculateWheelWear :: "SpindleParameters \<Rightarrow> real list \<Rightarrow> real \<Rightarrow> real" where
  "calculateWheelWear p loadProfile duration =
     (let wearCoefficient = 0.000001;
          wheelDiam = wheelDiameter p / 1000.0;
          wheelThickness = 0.02;
          avgLoad = sum_list loadProfile / real (length loadProfile);
          peripheralSpeed = pi * wheelDiam * real_of_int (maxSpeed p) / 60.0;
          slidingDistance = peripheralSpeed * duration;
          wearVolume = wearCoefficient * avgLoad * slidingDistance;
          diameterReduction = wearVolume / (pi * wheelDiam * wheelThickness * 1000.0)
      in min diameterReduction (wheelDiameter p * 0.2))"

definition calculateWearInducedVibration :: "SpindleParameters \<Rightarrow> real \<Rightarrow> real" where
  "calculateWearInducedVibration p wear =
     (let wheelDiam = wheelDiameter p / 1000.0;
          wheelThickness = 0.02;
          density = 2500.0;
          wearVolume = wear * pi * wheelDiam * wheelThickness * 1000.0;
          imbalanceMass = density * wearVolume * 0.000000001;
          wheelMass = density * pi * (wheelDiam / 2) ^ 2 * wheelThickness;
          eccentricity = (imbalanceMass * (wheelDiam / 2)) / wheelMass;
          omega = 2 * pi * real_of_int (maxSpeed p) / 60.0;
          imbalanceForce = imbalanceMass * omega ^ 2 * eccentricity;
          systemStiffness = 100000000;
          vibrationAmplitude = imbalanceForce / systemStiffness * 1000.0
      in min vibrationAmplitude 2.0)"

text \<open>
  The body of the \<^verbatim>\<open>try\<close> block of \<^verbatim>\<open>evaluateObjectives\<close>: it throws
  \<^verbatim>\<open>std::runtime_error("Empty load profile generated")\<close> or yields the three objectives
  \<^verbatim>\<open>{totalVibration, -bearingLife, tempRise}\<close>.
\<close>

definition evaluateObjectives_try ::
  "SpindleParameters \<Rightarrow> real \<Rightarrow> real \<Rightarrow> rng \<Rightarrow> (error + real list) \<times> rng" where
  "evaluateObjectives_try p duration loadFactor g =
     (let (loadProfile, g') = generateDynamicLoadProfile p duration loadFactor g
      in if loadProfile = [] then (Inl (Runtime_error ''Empty load profile generated''), g')
         else
           (let vibration = estimateVibration p;
                tempRise = estimateTemperatureRise p;
                bearingLife = calculateBearingL10Life p loadProfile;
                wheelWear = calculateWheelWear p loadProfile duration;
                wearVibration = calculateWearInducedVibration p wheelWear;
                totalVibration = vibration + wearVibration
            in (Inr [totalVibration, - bearingLife, tempRise], g')))"

text \<open>The worst-case objectives \<^verbatim>\<open>{1e10, -1e-10, 1e10}\<close> of the \<^verbatim>\<open>catch\<close> block.\<close>

definition worstCaseObjectives :: "real list" where
  "worstCaseObjectives = [10000000000, - (1 / 10000000000), 10000000000]"

text \<open>
  \<^verbatim>\<open>evaluateObjectives\<close>: the handler \<^verbatim>\<open>catch (const std::exception& e)\<close> turns every
  exception of the body into the worst-case objectives, so the function itself never throws.
\<close>

definition evaluateObjectives :: "Individual \<Rightarrow> real \<Rightarrow> real \<Rightarrow> rng \<Rightarrow> Individual \<times> rng" where
  "evaluateObjectives ind duration loadFactor g =
     (case evaluateObjectives_try (params ind) duration loadFactor g of
        (Inr objs, g') \<Rightarrow> (ind\<lparr>objectives := objs\<rparr>, g')
      | (Inl e, g') \<Rightarrow> (ind\<lparr>objectives := worstCaseObjectives\<rparr>, g'))"

section \<open>Non-dominated sorting\<close>

text \<open>
  \<^verbatim>\<open>dominates\<close>: the loop runs over the objectives of \<open>a\<close> and reads those of \<open>b\<close> at the same
  index. When \<open>b\<close> has fewer objectives the C++ reads out of range (undefined); the model
  answers \<open>False\<close> there.
\<close>

fun dominatesLoop :: "real list \<Rightarrow> real list \<Rightarrow> bool \<Rightarrow> bool" where
  "dominatesLoop [] bs betterInAtLeastOne = betterInAtLeastOne"
| "dominatesLoop (a # as) [] betterInAtLeastOne = False"
| "dominatesLoop (a # as) (b # bs) betterInAtLeastOne =
     (if a > b then False
      else dominatesLoop as bs (if a < b then True else betterInAtLeastOne))"

definition dominates :: "Individual \<Rightarrow> Individual \<Rightarrow> bool" where
  "dominates a b = dominatesLoop (objectives a) (objectives b) False"

text \<open>
  The first pass over all pairs. The state is the population (whose ranks are being written),
  \<^verbatim>\<open>fronts\<close>, \<^verbatim>\<open>dominationCount\<close> and \<^verbatim>\<open>dominatedBy\<close>. \<open>compareWith\<close> is the body of the inner
  loop over \<open>j\<close>, \<open>firstFrontStep\<close> the body of the outer loop over \<open>i\<close>.
\<close>

definition compareWith ::
  "Individual list \<Rightarrow> nat \<Rightarrow> nat \<Rightarrow> int list \<times> nat list list \<Rightarrow> int list \<times> nat list list" where
  "compareWith pop i j = (\<lambda>(dominationCount, dominatedBy).
     if i = j then (dominationCount, dominatedBy)
     else if dominates (pop ! i) (pop ! j)
       then (dominationCount, dominatedBy[i := dominatedBy ! i @ [j]])
     else if dominates (pop ! j) (pop ! i)
       then (dominationCount[i := dominationCount ! i + 1], dominatedBy)
     else (dominationCount, dominatedBy))"

definition firstFrontStep ::
  "nat \<Rightarrow> Individual list \<times> nat list list \<times> int list \<times> nat list list
       \<Rightarrow> Individual list \<times> nat list list \<times> int list \<times> nat list list" where
  "firstFrontStep i = (\<lambda>(pop, fronts, dominationCount, dominatedBy).
     let (dominationCount', dominatedBy') =
           fold (compareWith pop i) [0..<length pop] (dominationCount, dominatedBy)
     in if dominationCount' ! i = 0
        then (pop[i := (pop ! i)\<lparr>rank := 1\<rparr>],
              (let fronts' = (if fronts = [] then [[]] else fronts)
               in fronts'[0 := fronts' ! 0 @ [i]]),
              dominationCount', dominatedBy')
        else (pop, fronts, dominationCount', dominatedBy'))"

text \<open>
  The body of the innermost loop of the second pass, for one \<open>j\<close> of \<^verbatim>\<open>dominatedBy[i]\<close>. An
  index outside \<^verbatim>\<open>dominationCount\<close> (undefined in C++, and never produced by the first pass)
  is skipped.
\<close>

definition relax ::
  "nat \<Rightarrow> nat \<Rightarrow> Individual list \<times> int list \<times> nat list \<Rightarrow> Individual list \<times> int list \<times> nat list" where
  "relax frontIdx j = (\<lambda>(pop, dominationCount, nextFront).
     if j < length dominationCount then
       (let dominationCount' = dominationCount[j := dominationCount ! j - 1]
        in if dominationCount' ! j = 0
           then (pop[j := (pop ! j)\<lparr>rank := int frontIdx + 2\<rparr>], dominationCount',
                 nextFront @ [j])
           else (pop, dominationCount', nextFront))
     else (pop, dominationCount, nextFront))"

definition relaxFront ::
  "nat list list \<Rightarrow> nat \<Rightarrow> nat list \<Rightarrow> Individual list \<times> int list \<times> nat list
     \<Rightarrow> Individual list \<times> int list \<times> nat list" where
  "relaxFront dominatedBy frontIdx front =
     fold (\<lambda>i. fold (relax frontIdx) (dominatedBy ! i)) front"

text \<open>The number of positive domination counts; it bounds the fronts still to be built.\<close>

definition positiveCounts :: "int list \<Rightarrow> nat" where
  "positiveCounts dominationCount = length (filter (\<lambda>c. 0 < c) dominationCount)"

text \<open>
  \<^verbatim>\<open>while (frontIdx < fronts.size() && !fronts[frontIdx].empty())\<close>. Every \<open>j\<close> enters a next
  front at most once, when its count falls from one to zero, which is why the loop ends.
\<close>

function buildFronts ::
  "nat list list \<Rightarrow> nat \<Rightarrow> Individual list \<times> nat list list \<times> int list
     \<Rightarrow> Individual list \<times> nat list list \<times> int list" where
  "buildFronts dominatedBy frontIdx (pop, fronts, dominationCount) =
     (if frontIdx < length fronts \<and> fronts ! frontIdx \<noteq> [] then
        (case relaxFront dominatedBy frontIdx (fronts ! frontIdx) (pop, dominationCount, []) of
           (pop', dominationCount', nextFront) \<Rightarrow>
             buildFronts dominatedBy (frontIdx + 1)
               (pop', (if nextFront \<noteq> [] then fronts @ [nextFront] else fronts),
                dominationCount'))
      else (pop, fronts, dominationCount))"
  by pat_completeness auto
termination
proof (relation "measure (\<lambda>(dominatedBy, frontIdx, pop, fronts, dominationCount).
          positiveCounts dominationCount + (length fronts - frontIdx))", goal_cases)
  case 1
  show ?case by simp
next
  case (2 dominatedBy frontIdx pop fronts dominationCount pop' rest dominationCount' nextFront)
  have upd: "positiveCounts (cs[j := cs ! j - 1]) + (if cs ! j = 1 then 1 else 0) =
             positiveCounts cs" if "j < length cs" for cs :: "int list" and j
    using that
  proof (induction cs arbitrary: j)
    case Nil
    then show ?case by simp
  next
    case (Cons c cs)
    then show ?case by (cases j) (auto simp: positiveCounts_def)
  qed
  have step: "positiveCounts (fst (snd (relax k j (p, cs, nf)))) + length (snd (snd (relax k j (p, cs, nf))))
              = positiveCounts cs + length nf" for k j p cs nf
    using upd[of j cs] by (auto simp: relax_def Let_def)
  have inner: "positiveCounts (fst (snd (fold (relax k) js st))) + length (snd (snd (fold (relax k) js st)))
              = positiveCounts (fst (snd st)) + length (snd (snd st))" for k js st
  proof (induction js arbitrary: st)
    case Nil
    then show ?case by simp
  next
    case (Cons j js)
    obtain p cs nf where st: "st = (p, cs, nf)" by (cases st) auto
    show ?case using Cons.IH[of "relax k j st"] step[of k j p cs nf] by (simp add: st)
  qed
  have outer: "positiveCounts (fst (snd (relaxFront D k is st))) + length (snd (snd (relaxFront D k is st)))
              = positiveCounts (fst (snd st)) + length (snd (snd st))" for D k "is" st
  proof (induction "is" arbitrary: st)
    case Nil
    then show ?case by (simp add: relaxFront_def)
  next
    case (Cons i "is")
    show ?case
      using Cons.IH[of "fold (relax k) (D ! i) st"] inner[of k "D ! i" st]
      by (simp add: relaxFront_def)
  qed
  have res: "relaxFront dominatedBy frontIdx (fronts ! frontIdx) (pop, dominationCount, []) =
             (pop', dominationCount', nextFront)"
    using 2(2,3) by simp
  have "positiveCounts dominationCount' + length nextFront = positiveCounts dominationCount"
    using outer[of dominatedBy frontIdx "fronts ! frontIdx" "(pop, dominationCount, [])"]
    by (simp add: res)
  then show ?case using 2(1) by (cases nextFront) auto
qed

text \<open>
  The ranking shared, statement for statement, by \<^verbatim>\<open>nonDominatedSorting\<close> and by the
  ``Recompute fronts'' block of \<^verbatim>\<open>optimizeSpindleArrangement\<close>: it returns the population with
  its ranks written and the fronts as lists of indices.
\<close>

definition rankPopulation :: "Individual list \<Rightarrow> Individual list \<times> nat list list" where
  "rankPopulation pop =
     (case fold firstFrontStep [0..<length pop]
             (pop, [], replicate (length pop) 0, replicate (length pop) []) of
        (pop1, fronts1, dominationCount, dominatedBy) \<Rightarrow>
          (case buildFronts dominatedBy 0 (pop1, fronts1, dominationCount) of
             (pop2, fronts2, dominationCount2) \<Rightarrow> (pop2, fronts2)))"

section \<open>Crowding distance\<close>

text \<open>
  \<^verbatim>\<open>std::sort(first, last, comp)\<close> leaves a permutation in which no element is \<open>comp\<close>-before
  an earlier one; the order of equivalent elements is unspecified. It is modelled by insertion
  sort, and the theorems below use only these two properties of it.
\<close>

fun insertBy :: "('a \<Rightarrow> 'a \<Rightarrow> bool) \<Rightarrow> 'a \<Rightarrow> 'a list \<Rightarrow> 'a list" where
  "insertBy cmp x [] = [x]"
| "insertBy cmp x (y # ys) = (if cmp x y then x # y # ys else y # insertBy cmp x ys)"

definition sortBy :: "('a \<Rightarrow> 'a \<Rightarrow> bool) \<Rightarrow> 'a list \<Rightarrow> 'a list" where
  "sortBy cmp xs = foldr (insertBy cmp) xs []"

text \<open>\<^verbatim>\<open>population[i].crowdingDistance = infinity()\<close> and \<^verbatim>\<open>population[i].crowdingDistance += d\<close>.\<close>

definition setInfinite :: "nat \<Rightarrow> Individual list \<Rightarrow> Individual list" where
  "setInfinite i pop = pop[i := (pop ! i)\<lparr>crowdingDistance := Infinity\<rparr>]"

definition addDistance :: "nat \<Rightarrow> real \<Rightarrow> Individual list \<Rightarrow> Individual list" where
  "addDistance i d pop = pop[i := (pop ! i)\<lparr>crowdingDistance := xadd (crowdingDistance (pop ! i)) d\<rparr>]"

text \<open>
  The crowding loop of \<^verbatim>\<open>nonDominatedSorting\<close>. \<open>crowdingObjective\<close> is the body of the loop
  over \<^verbatim>\<open>objIdx\<close> (the vector \<^verbatim>\<open>sortedFront\<close> is kept from one objective to the next),
  \<open>crowdingFront\<close> the body of the loop over the fronts. No statement sets a crowding
  distance to zero: the interior members are updated with \<^verbatim>\<open>+=\<close>.
\<close>

definition crowdingObjective ::
  "nat \<Rightarrow> Individual list \<times> nat list \<Rightarrow> Individual list \<times> nat list" where
  "crowdingObjective objIdx = (\<lambda>(pop, sortedFront).
     let sorted = sortBy (\<lambda>a b. objectives (pop ! a) ! objIdx < objectives (pop ! b) ! objIdx)
                    sortedFront;
         pop1 = setInfinite (hd sorted) pop;
         pop2 = setInfinite (last sorted) pop1;
         objRange = objectives (pop2 ! last sorted) ! objIdx - objectives (pop2 ! hd sorted) ! objIdx
     in if \<bar>objRange\<bar> < 1 / 10000000000 then (pop2, sorted)
        else (fold (\<lambda>i p.
                 if i + 1 < length sorted \<and> i \<ge> 1
                 then addDistance (sorted ! i)
                        ((objectives (p ! (sorted ! (i + 1))) ! objIdx -
                          objectives (p ! (sorted ! (i - 1))) ! objIdx) / objRange) p
                 else p)
               [1..<length sorted - 1] pop2, sorted))"

definition crowdingFront :: "nat list \<Rightarrow> Individual list \<Rightarrow> Individual list" where
  "crowdingFront front pop =
     (if length front \<le> 2 then fold setInfinite front pop
      else fst (fold crowdingObjective [0..<length (objectives (pop ! hd front))] (pop, front)))"

definition nonDominatedSorting :: "Individual list \<Rightarrow> Individual list" where
  "nonDominatedSorting pop =
     (case rankPopulation pop of (ranked, fronts) \<Rightarrow> fold crowdingFront fronts ranked)"

text \<open>
  The same loop as written a second time inside \<^verbatim>\<open>optimizeSpindleArrangement\<close>, where every
  index is compared with \<^verbatim>\<open>combined.size()\<close> before it is used.
\<close>

definition crowdingObjectiveChecked ::
  "nat \<Rightarrow> Individual list \<times> nat list \<Rightarrow> Individual list \<times> nat list" where
  "crowdingObjectiveChecked objIdx = (\<lambda>(combined, sortedFront).
     let sorted = sortBy (\<lambda>a b. if a \<ge> length combined \<or> b \<ge> length combined then False
                                else objectives (combined ! a) ! objIdx <
                                     objectives (combined ! b) ! objIdx) sortedFront;
         pop1 = (if sorted \<noteq> [] \<and> hd sorted < length combined
                 then setInfinite (hd sorted) combined else combined);
         pop2 = (if sorted \<noteq> [] \<and> last sorted < length pop1
                 then setInfinite (last sorted) pop1 else pop1)
     in if length sorted \<le> 2 then (pop2, sorted)
        else
          (let objRange = objectives (pop2 ! last sorted) ! objIdx -
                          objectives (pop2 ! hd sorted) ! objIdx
           in if \<bar>objRange\<bar> < 1 / 10000000000 then (pop2, sorted)
              else (fold (\<lambda>i p.
                       if i + 1 < length sorted \<and> i \<ge> 1 \<and> sorted ! i < length p \<and>
                          sorted ! (i + 1) < length p \<and> sorted ! (i - 1) < length p
                       then addDistance (sorted ! i)
                              ((objectives (p ! (sorted ! (i + 1))) ! objIdx -
                                objectives (p ! (sorted ! (i - 1))) ! objIdx) / objRange) p
                       else p)
                     [1..<length sorted - 1] pop2, sorted)))"

definition crowdingFrontChecked :: "nat list \<Rightarrow> Individual list \<Rightarrow> Individual list" where
  "crowdingFrontChecked front combined =
     (if length front \<le> 2
      then fold (\<lambda>i p. if i < length p then setInfinite i p else p) front combined
      else fst (fold crowdingObjectiveChecked
                  [0..<length (objectives (combined ! hd front))] (combined, front)))"

section \<open>The generational loop\<close>

text \<open>\<^verbatim>\<open>static_cast<size_t>(x)\<close> for a non-negative \<open>x\<close>.\<close>

definition static_cast_size_t :: "real \<Rightarrow> nat" where
  "static_cast_size_t x = nat \<lfloor>x\<rfloor>"

text \<open>
  The input checks at the head of \<^verbatim>\<open>optimizeSpindleArrangement\<close>; \<open>Some e\<close> is the
  \<^verbatim>\<open>std::invalid_argument\<close> thrown.
\<close>

definition validateInputs :: "real \<Rightarrow> real \<Rightarrow> int \<Rightarrow> int \<Rightarrow> error option" where
  "validateInputs duration loadFactor populationSize generations =
     (if duration \<le> 0.0 then Some (Invalid_argument ''Duration must be positive'')
      else if loadFactor < 0.5 \<or> loadFactor > 2.0
        then Some (Invalid_argument ''Load factor must be between 0.5 and 2.0'')
      else if populationSize < 10 \<or> generations < 1
        then Some (Invalid_argument
               ''Population size must be at least 10 and generations at least 1'')
      else None)"

text \<open>
  The optimiser threads two things through its loops: the random source, and (an observation
  added by the model, the code keeps no such number) how many times \<^verbatim>\<open>evaluateObjectives\<close>
  has been called.
\<close>

type_synonym sim = "rng \<times> nat"

text \<open>
  ``Initialize population'': \<^verbatim>\<open>std::vector<Individual> population(populationSize)\<close>, then random
  parameters and one evaluation for every slot.
\<close>

definition initializeIndividual ::
  "real \<Rightarrow> real \<Rightarrow> nat \<Rightarrow> Individual list \<times> sim \<Rightarrow> Individual list \<times> sim" where
  "initializeIndividual duration loadFactor i = (\<lambda>(population, g, evaluations).
     let (p, g1) = generateRandomParameters g;
         (ind, g2) = evaluateObjectives ((population ! i)\<lparr>params := p\<rparr>) duration loadFactor g1
     in (population[i := ind], g2, evaluations + 1))"

definition initializePopulation ::
  "real \<Rightarrow> real \<Rightarrow> int \<Rightarrow> sim \<Rightarrow> Individual list \<times> sim" where
  "initializePopulation duration loadFactor populationSize s =
     fold (initializeIndividual duration loadFactor) [0..<nat populationSize]
       (replicate (nat populationSize) newIndividual, s)"

text \<open>
  The condition of the \<^verbatim>\<open>if\<close> in the offspring loop: \<open>a\<close> has the lower rank, or the same
  rank and the larger crowding distance.
\<close>

definition precedes :: "Individual \<Rightarrow> Individual \<Rightarrow> bool" where
  "precedes a b \<longleftrightarrow>
     rank a < rank b \<or> (rank a = rank b \<and> xgreater (crowdingDistance a) (crowdingDistance b))"

text \<open>
  The head of the offspring loop: two indices are drawn, both individuals become parents, and
  the comparison decides only which of them is the first argument of \<^verbatim>\<open>crossover\<close>. The
  result is the pair in the order in which it is passed.
\<close>

definition selectParents ::
  "int \<Rightarrow> Individual list \<Rightarrow> rng \<Rightarrow> (error + Individual \<times> Individual) \<times> rng" where
  "selectParents populationSize population g =
     (let (r1, g1) = dist_rng g;
          idx1 = static_cast_size_t (r1 * real_of_int populationSize);
          (r2, g2) = dist_rng g1;
          idx2 = static_cast_size_t (r2 * real_of_int populationSize)
      in if idx1 \<ge> length population \<or> idx2 \<ge> length population
         then (Inl (Runtime_error ''Invalid tournament indices''), g2)
         else
           (let parent1 = population ! idx1;
                parent2 = population ! idx2
            in if precedes parent1 parent2
               then (Inr (parent1, parent2), g2)
               else (Inr (parent2, parent1), g2)))"

text \<open>\<^verbatim>\<open>while (offspring.size() < populationSize)\<close>: one offspring is pushed in every round.\<close>

function createOffspring ::
  "real \<Rightarrow> real \<Rightarrow> int \<Rightarrow> Individual list \<Rightarrow> Individual list \<Rightarrow> sim
     \<Rightarrow> (error + Individual list) \<times> sim" where
  "createOffspring duration loadFactor populationSize population offspring (g, evaluations) =
     (if int (length offspring) < populationSize then
        (case selectParents populationSize population g of
           (Inl e, g2) \<Rightarrow> (Inl e, g2, evaluations)
         | (Inr (first, second), g2) \<Rightarrow>
             (case crossover first second g2 of (offspringInd, g3) \<Rightarrow>
              case mutate offspringInd g3 of (mutated, g4) \<Rightarrow>
              case evaluateObjectives mutated duration loadFactor g4 of (evaluated, g5) \<Rightarrow>
                createOffspring duration loadFactor populationSize population
                  (offspring @ [evaluated]) (g5, evaluations + 1)))
      else (Inr offspring, g, evaluations))"
  by pat_completeness auto
termination
  by (relation "measure (\<lambda>(duration, loadFactor, populationSize, population, offspring, s).
          nat (populationSize - int (length offspring)))") auto

text \<open>
  ``Populate next generation''. \<open>addWholeFronts\<close> is the \<^verbatim>\<open>while\<close> loop that copies whole
  fronts; \<open>selectNextGeneration\<close> then fills up from the next front, sorted by descending
  crowding distance.
\<close>

function addWholeFronts ::
  "int \<Rightarrow> Individual list \<Rightarrow> nat list list \<Rightarrow> nat \<Rightarrow> Individual list \<Rightarrow> Individual list \<times> nat" where
  "addWholeFronts populationSize combined fronts frontIdx population =
     (if frontIdx < length fronts \<and>
         length population + length (fronts ! frontIdx) \<le> nat populationSize
      then addWholeFronts populationSize combined fronts (frontIdx + 1)
             (fold (\<lambda>i p. if i < length combined then p @ [combined ! i] else p)
                (fronts ! frontIdx) population)
      else (population, frontIdx))"
  by pat_completeness auto
termination
  by (relation "measure (\<lambda>(populationSize, combined, fronts, frontIdx, population).
          length fronts - frontIdx)") auto

definition selectNextGeneration ::
  "int \<Rightarrow> Individual list \<Rightarrow> nat list list \<Rightarrow> error + Individual list" where
  "selectNextGeneration populationSize combined fronts =
     (case addWholeFronts populationSize combined fronts 0 [] of
        (population, frontIdx) \<Rightarrow>
          (let population' =
             (if length population < nat populationSize \<and> frontIdx < length fronts then
                (let sortedFront =
                       sortBy (\<lambda>a b. if a \<ge> length combined \<or> b \<ge> length combined then False
                                      else xgreater (crowdingDistance (combined ! a))
                                                    (crowdingDistance (combined ! b)))
                         (fronts ! frontIdx);
                     remaining = nat populationSize - length population
                 in fold (\<lambda>i p. if sortedFront ! i < length combined
                                 then p @ [combined ! (sortedFront ! i)] else p)
                      [0..<min remaining (length sortedFront)] population)
              else population)
           in if population' = [] then Inl (Runtime_error ''Population is empty after selection'')
              else Inr population'))"

text \<open>One round of the main loop: offspring, combination, ranking, crowding, selection.\<close>

definition combinePopulations :: "Individual list \<Rightarrow> Individual list \<Rightarrow> Individual list" where
  "combinePopulations population offspring = population @ offspring"

text \<open>
  ``Recompute fronts'' and ``Compute crowding distance'' on the combined population: the
  Rank step of a generation. The fronts are kept for the selection that follows.
\<close>

definition rankCombined :: "Individual list \<Rightarrow> Individual list \<times> nat list list" where
  "rankCombined combined =
     (case rankPopulation combined of
        (ranked, fronts) \<Rightarrow> (fold crowdingFrontChecked fronts ranked, fronts))"

definition generation ::
  "real \<Rightarrow> real \<Rightarrow> int \<Rightarrow> Individual list \<times> sim \<Rightarrow> (error + Individual list) \<times> sim" where
  "generation duration loadFactor populationSize = (\<lambda>(population, s).
     case createOffspring duration loadFactor populationSize population [] s of
       (Inl e, s') \<Rightarrow> (Inl e, s')
     | (Inr offspring, s') \<Rightarrow>
         (let combined = combinePopulations population offspring
          in if combined = [] then (Inl (Runtime_error ''Combined population is empty''), s')
             else
               (case rankCombined combined of (crowded, fronts) \<Rightarrow>
                  (selectNextGeneration populationSize crowded fronts, s'))))"

text \<open>\<^verbatim>\<open>for (int gen = 0; gen < generations; ++gen)\<close>, as recursion on the rounds left.\<close>

fun runGenerations ::
  "real \<Rightarrow> real \<Rightarrow> int \<Rightarrow> nat \<Rightarrow> Individual list \<times> sim \<Rightarrow> (error + Individual list) \<times> sim" where
  "runGenerations duration loadFactor populationSize 0 (population, s) = (Inr population, s)"
| "runGenerations duration loadFactor populationSize (Suc n) (population, s) =
     (case generation duration loadFactor populationSize (population, s) of
        (Inl e, s') \<Rightarrow> (Inl e, s')
      | (Inr population', s') \<Rightarrow>
          runGenerations duration loadFactor populationSize n (population', s'))"

text \<open>
  \<^verbatim>\<open>optimizeSpindleArrangement\<close>. The C++ returns a string: the report, which prints one line
  for every individual of rank 1 in the final population, or \<^verbatim>\<open>"Error: Optimization failed - "\<close>
  followed by the message of the exception caught. The model returns the exception, or the
  list of individuals the report prints, together with the random source and the number of
  evaluations made.
\<close>

definition paretoFront :: "Individual list \<Rightarrow> Individual list" where
  "paretoFront population = filter (\<lambda>ind. rank ind = 1) population"

definition optimizeSpindleArrangement ::
  "real \<Rightarrow> real \<Rightarrow> int \<Rightarrow> int \<Rightarrow> rng \<Rightarrow> (error + Individual list) \<times> sim" where
  "optimizeSpindleArrangement duration loadFactor populationSize generations g =
     (case validateInputs duration loadFactor populationSize generations of
        Some e \<Rightarrow> (Inl e, g, 0)
      | None \<Rightarrow>
          (case initializePopulation duration loadFactor populationSize (g, 0) of
             (population, s) \<Rightarrow>
               (case runGenerations duration loadFactor populationSize (nat generations)
                       (nonDominatedSorting population, s) of
                  (Inl e, s') \<Rightarrow> (Inl e, s')
                | (Inr final, s') \<Rightarrow> (Inr (paretoFront final), s'))))"

section \<open>Parent selection as the specification words it\<close>

text \<open>
  For comparison with \<open>selectParents\<close> only, and written from section 4.4 of the
  specification, not from the code: a binary tournament draws two individuals and keeps the
  winner; two independent tournaments give \<open>parent1\<close> and \<open>parent2\<close>.
\<close>

definition specBinaryTournament :: "int \<Rightarrow> Individual list \<Rightarrow> rng \<Rightarrow> Individual \<times> rng" where
  "specBinaryTournament populationSize population g =
     (let (r1, g1) = dist_rng g;
          a = population ! static_cast_size_t (r1 * real_of_int populationSize);
          (r2, g2) = dist_rng g1;
          b = population ! static_cast_size_t (r2 * real_of_int populationSize)
      in (if precedes a b then a else b, g2))"

definition specSelectParents ::
  "int \<Rightarrow> Individual list \<Rightarrow> rng \<Rightarrow> (error + Individual \<times> Individual) \<times> rng" where
  "specSelectParents populationSize population g =
     (let (parent1, g1) = specBinaryTournament populationSize population g;
          (parent2, g2) = specBinaryTournament populationSize population g1
      in (Inr (parent1, parent2), g2))"

section \<open>Example inputs\<close>

text \<open>A parameter set inside all bounds, used where a theorem is applied to a concrete input.\<close>

definition exampleParameters :: SpindleParameters where
  "exampleParameters =
     \<lparr>spindleType = ''Motorized'', powerRating = 10, maxSpeed = 12000, wheelDiameter = 200,
      bearingType = ''Hybrid Ceramic'', bearingPreload = 500, coolingType = ''Liquid'',
      lubricationType = ''Oil-Air'', toolInterface = ''HSK'', alignmentTolerance = 1/1000\<rparr>"


text \<open>Ten individuals with the ranks 1 to 10, and a random source that starts with four draws.\<close>

definition rankedIndividual :: "int \<Rightarrow> Individual" where
  "rankedIndividual r =
     \<lparr>params = exampleParameters, objectives = [real_of_int r, 0, 0], rank = r,
      crowdingDistance = Infinity\<rparr>"

definition examplePopulation :: "Individual list" where
  "examplePopulation = map rankedIndividual [1, 2, 3, 4, 5, 6, 7, 8, 9, 10]"

definition exampleDraws :: rng where
  "exampleDraws = [1/20, 3/20, 5/20, 7/20] @- sconst (1/2)"

text \<open>
  Three mutually non-dominating individuals, as their constructor leaves them (crowding
  distance \<open>0\<close>) apart from parameters and objectives.
\<close>

definition tradeoffIndividual :: "int \<Rightarrow> Individual" where
  "tradeoffIndividual i =
     \<lparr>params = exampleParameters, objectives = [real_of_int i, real_of_int (4 - i), 0],
      rank = 0, crowdingDistance = Finite 0\<rparr>"

definition threeTradeoffs :: "Individual list" where
  "threeTradeoffs = [tradeoffIndividual 1, tradeoffIndividual 2, tradeoffIndividual 3]"

text \<open>
  Two draws that pick the first and the second of the three individuals above, which have
  the same rank and the same crowding distance.
\<close>

definition tieDraws :: rng where
  "tieDraws = [1/10, 1/2] @- sconst (1/2)"

section \<open>Notions used to state the properties\<close>

text \<open>
  What the crowding loops may change in a population: nothing but crowding distances, and an
  infinite one stays infinite.
\<close>

definition crowdingUpdate :: "Individual list \<Rightarrow> Individual list \<Rightarrow> bool" where
  "crowdingUpdate pop pop' \<longleftrightarrow>
     length pop' = length pop \<and>
     (\<forall>i<length pop.
        params (pop' ! i) = params (pop ! i) \<and>
        objectives (pop' ! i) = objectives (pop ! i) \<and>
        rank (pop' ! i) = rank (pop ! i) \<and>
        (crowdingDistance (pop ! i) = Infinity \<longrightarrow> crowdingDistance (pop' ! i) = Infinity))"

text \<open>
  On objective \<open>k\<close>, a member of the front holding the least value and a member holding the
  greatest value have an infinite crowding distance.
\<close>

definition boundariesInfinite :: "Individual list \<Rightarrow> nat list \<Rightarrow> nat \<Rightarrow> bool" where
  "boundariesInfinite pop front k \<longleftrightarrow>
     (\<exists>i \<in> set front. crowdingDistance (pop ! i) = Infinity \<and>
        (\<forall>j \<in> set front. objectives (pop ! i) ! k \<le> objectives (pop ! j) ! k)) \<and>
     (\<exists>i \<in> set front. crowdingDistance (pop ! i) = Infinity \<and>
        (\<forall>j \<in> set front. objectives (pop ! j) ! k \<le> objectives (pop ! i) ! k))"

text \<open>The crowding contract for one front, over the first \<open>m\<close> objectives.\<close>

definition frontCrowded :: "nat \<Rightarrow> Individual list \<Rightarrow> nat list \<Rightarrow> bool" where
  "frontCrowded m pop front \<longleftrightarrow>
     (length front \<le> 2 \<longrightarrow> (\<forall>i \<in> set front. crowdingDistance (pop ! i) = Infinity)) \<and>
     (length front > 2 \<longrightarrow> (\<forall>k<m. boundariesInfinite pop front k))"

text \<open>The indices of the individuals that dominate the one at index \<open>j\<close>.\<close>

definition dominators :: "Individual list \<Rightarrow> nat \<Rightarrow> nat set" where
  "dominators pop j = {i. i < length pop \<and> dominates (pop ! i) (pop ! j)}"

text \<open>
  What the innermost loop of the second pass leaves, as functions of the counts \<open>c\<close> and of
  the indices \<open>js\<close> it visits: the counts, and the indices whose count fell to zero, in the
  order in which they are pushed.
\<close>

fun decremented :: "int list \<Rightarrow> nat list \<Rightarrow> int list" where
  "decremented c [] = c"
| "decremented c (j # js) = decremented (if j < length c then c[j := c ! j - 1] else c) js"

fun reachedZero :: "int list \<Rightarrow> nat list \<Rightarrow> nat list" where
  "reachedZero c [] = []"
| "reachedZero c (j # js) =
     (if j < length c
      then (if c ! j - 1 = 0 then [j] else []) @ reachedZero (c[j := c ! j - 1]) js
      else reachedZero c js)"

text \<open>The population differs from the original one in ranks only.\<close>

definition rankUpdate :: "Individual list \<Rightarrow> Individual list \<Rightarrow> bool" where
  "rankUpdate pop pop' \<longleftrightarrow>
     length pop' = length pop \<and>
     (\<forall>i<length pop.
        params (pop' ! i) = params (pop ! i) \<and>
        objectives (pop' ! i) = objectives (pop ! i) \<and>
        crowdingDistance (pop' ! i) = crowdingDistance (pop ! i))"

text \<open>
  The invariant of the \<^verbatim>\<open>while\<close> loop that builds the fronts, for the original population
  \<open>pop\<close>: the fronts built so far are non-empty and disjoint, the count of \<open>j\<close> is the number of
  its dominators outside the fronts already processed, it is zero exactly for the members of
  the fronts, the members of front \<open>r\<close> have rank \<open>r + 1\<close>, and the first front holds
  exactly the individuals that nobody dominates.
\<close>

definition frontsInvariant ::
  "Individual list \<Rightarrow> nat \<Rightarrow> Individual list \<times> nat list list \<times> int list \<Rightarrow> bool" where
  "frontsInvariant pop frontIdx = (\<lambda>(pop', fronts, dominationCount).
     rankUpdate pop pop' \<and> length dominationCount = length pop \<and>
     frontIdx \<le> length fronts \<and> length fronts \<le> Suc frontIdx \<and>
     (\<forall>front \<in> set fronts. front \<noteq> []) \<and>
     distinct (concat fronts) \<and> set (concat fronts) \<subseteq> {..<length pop} \<and>
     (\<forall>j<length pop. dominationCount ! j =
        int (card (dominators pop j - set (concat (take frontIdx fronts))))) \<and>
     (\<forall>j<length pop. j \<in> set (concat fronts) \<longleftrightarrow> dominationCount ! j = 0) \<and>
     (\<forall>r<length fronts. \<forall>j \<in> set (fronts ! r). rank (pop' ! j) = int r + 1) \<and>
     set (concat (take 1 fronts)) = {j. j < length pop \<and> dominators pop j = {}})"

text \<open>
  What the first pass computes for index \<open>i\<close>: the list \<^verbatim>\<open>dominatedBy[i]\<close> and the number
  \<^verbatim>\<open>dominationCount[i]\<close>.
\<close>

definition dominatedList :: "Individual list \<Rightarrow> nat \<Rightarrow> nat list" where
  "dominatedList pop i =
     filter (\<lambda>j. j \<noteq> i \<and> dominates (pop ! i) (pop ! j)) [0..<length pop]"

definition dominatorCount :: "Individual list \<Rightarrow> nat \<Rightarrow> int" where
  "dominatorCount pop i =
     int (length (filter (\<lambda>j. j \<noteq> i \<and> \<not> dominates (pop ! i) (pop ! j) \<and>
                              dominates (pop ! j) (pop ! i)) [0..<length pop]))"

definition firstFront :: "Individual list \<Rightarrow> nat \<Rightarrow> nat list list" where
  "firstFront pop k =
     (if filter (\<lambda>i. dominatorCount pop i = 0) [0..<k] = [] then []
      else [filter (\<lambda>i. dominatorCount pop i = 0) [0..<k]])"

section \<open>Properties of the variation operators\<close>

subsection \<open>The random source and the clamps\<close>

lemma rng_ok_stl: "rng_ok g \<Longrightarrow> rng_ok (stl g)"
  unfolding rng_ok_def by (auto dest: stl_sset)

lemma rng_ok_shd: "rng_ok g \<Longrightarrow> 0 \<le> shd g \<and> shd g < 1"
  unfolding rng_ok_def by (simp add: shd_sset)

lemma pick_member:
  assumes "0 \<le> r" "r < 1" "choices \<noteq> []"
  shows "pick choices r \<in> set choices"
proof -
  let ?n = "length choices"
  have n: "0 < real ?n" using assms(3) by simp
  have lo: "0 \<le> r * real ?n" using assms(1) by simp
  have hi: "r * real ?n < real ?n" using assms(2) n by simp
  have "\<lfloor>r * real ?n\<rfloor> < int ?n" using hi by (simp add: floor_less_iff)
  moreover have "0 \<le> \<lfloor>r * real ?n\<rfloor>" using lo by simp
  ultimately have "nat \<lfloor>r * real ?n\<rfloor> < ?n" "0 \<le> \<lfloor>r * real ?n\<rfloor>" "\<lfloor>r * real ?n\<rfloor> < int ?n"
    by linarith+
  then show ?thesis
    using lo by (simp add: pick_def static_cast_int_def Let_def)
qed

lemma blend_bounds: "mn \<le> mx \<Longrightarrow> mn \<le> blend p1 p2 mn mx r \<and> blend p1 p2 mn mx r \<le> mx"
  by (simp add: blend_def Let_def)

lemma static_cast_int_bounds:
  "real_of_int a \<le> x \<Longrightarrow> x \<le> real_of_int b \<Longrightarrow> 0 \<le> a \<Longrightarrow> a \<le> static_cast_int x \<and> static_cast_int x \<le> b"
  by (auto simp: static_cast_int_def le_floor_iff floor_le_iff)

lemma mutateContinuous_bounds:
  "mn \<le> v \<Longrightarrow> v \<le> mx \<Longrightarrow> mn \<le> fst (mutateContinuous v mn mx g) \<and> fst (mutateContinuous v mn mx g) \<le> mx"
  by (simp add: mutateContinuous_def Let_def dist_rng_def split: prod.splits)

lemma mutateContinuous_rng: "rng_ok g \<Longrightarrow> rng_ok (snd (mutateContinuous v mn mx g))"
  by (simp add: mutateContinuous_def Let_def dist_rng_def rng_ok_stl split: prod.splits)

lemma mutateCategorical_member:
  "rng_ok g \<Longrightarrow> v \<in> set choices \<Longrightarrow> fst (mutateCategorical choices v g) \<in> set choices"
  using rng_ok_shd[of "stl g"] rng_ok_stl[of g]
  by (auto simp: mutateCategorical_def Let_def dist_rng_def intro!: pick_member split: prod.splits)

lemma mutateCategorical_rng: "rng_ok g \<Longrightarrow> rng_ok (snd (mutateCategorical choices v g))"
  by (simp add: mutateCategorical_def Let_def dist_rng_def rng_ok_stl split: prod.splits)

subsection \<open>crossover and mutate stay inside the parameter space\<close>

lemma crossover_rng: "snd (crossover p1 p2 g) = sdrop 10 g"
  by (simp add: crossover_def Let_def dist_rng_def numeral_eq_Suc)

lemma rng_ok_sdrop: "rng_ok g \<Longrightarrow> rng_ok (sdrop n g)"
  by (induction n arbitrary: g) (simp_all add: rng_ok_stl)

lemma crossover_inParameterSpace:
  assumes "inParameterSpace (params parent1)" "inParameterSpace (params parent2)"
  shows "inParameterSpace (params (fst (crossover parent1 parent2 g)))"
proof -
  have sp: "1000 \<le> static_cast_int (blend a b 1000 30000 r) \<and>
            static_cast_int (blend a b 1000 30000 r) \<le> 30000" for a b r
    using blend_bounds[of 1000 30000 a b r]
      static_cast_int_bounds[of 1000 "blend a b 1000 30000 r" 30000] by simp
  show ?thesis
    using assms sp
      blend_bounds[of "0.5" "50.0"] blend_bounds[of "50.0" "1000.0"]
      blend_bounds[of "100.0" "2000.0"] blend_bounds[of "0.0001" "0.01"]
    by (simp add: crossover_def Let_def dist_rng_def inParameterSpace_def)
qed

lemma mutateContinuous_res:
  assumes "mutateContinuous v mn mx g = (x, g')" "mn \<le> v" "v \<le> mx" "rng_ok g"
  shows "mn \<le> x \<and> x \<le> mx \<and> rng_ok g'"
  using mutateContinuous_bounds[OF assms(2,3), of g] mutateContinuous_rng[OF assms(4), of v mn mx]
  by (simp add: assms(1))

lemma mutateCategorical_res:
  assumes "mutateCategorical choices v g = (x, g')" "v \<in> set choices" "rng_ok g"
  shows "x \<in> set choices \<and> rng_ok g'"
  using mutateCategorical_member[OF assms(3,2)] mutateCategorical_rng[OF assms(3), of choices v]
  by (simp add: assms(1))

lemma mutate_res:
  assumes inv: "inParameterSpace (params ind)" and g: "rng_ok g"
  shows "inParameterSpace (params (fst (mutate ind g))) \<and> rng_ok (snd (mutate ind g))"
proof -
  let ?p = "params ind"
  obtain v1 g1 where s1: "mutateContinuous (powerRating ?p) 0.5 50.0 g = (v1, g1)"
    by (cases "mutateContinuous (powerRating ?p) 0.5 50.0 g")
  obtain v2 g2 where s2: "mutateContinuous (real_of_int (maxSpeed ?p)) 1000 30000 g1 = (v2, g2)"
    by (cases "mutateContinuous (real_of_int (maxSpeed ?p)) 1000 30000 g1")
  obtain v3 g3 where s3: "mutateContinuous (wheelDiameter ?p) 50.0 1000.0 g2 = (v3, g3)"
    by (cases "mutateContinuous (wheelDiameter ?p) 50.0 1000.0 g2")
  obtain v4 g4 where s4: "mutateContinuous (bearingPreload ?p) 100.0 2000.0 g3 = (v4, g4)"
    by (cases "mutateContinuous (bearingPreload ?p) 100.0 2000.0 g3")
  obtain v5 g5 where s5: "mutateContinuous (alignmentTolerance ?p) 0.0001 0.01 g4 = (v5, g5)"
    by (cases "mutateContinuous (alignmentTolerance ?p) 0.0001 0.01 g4")
  obtain c1 g6 where s6: "mutateCategorical spindleTypes (spindleType ?p) g5 = (c1, g6)"
    by (cases "mutateCategorical spindleTypes (spindleType ?p) g5")
  obtain c2 g7 where s7: "mutateCategorical bearingTypes (bearingType ?p) g6 = (c2, g7)"
    by (cases "mutateCategorical bearingTypes (bearingType ?p) g6")
  obtain c3 g8 where s8: "mutateCategorical coolingTypes (coolingType ?p) g7 = (c3, g8)"
    by (cases "mutateCategorical coolingTypes (coolingType ?p) g7")
  obtain c4 g9 where s9: "mutateCategorical lubricationTypes (lubricationType ?p) g8 = (c4, g9)"
    by (cases "mutateCategorical lubricationTypes (lubricationType ?p) g8")
  obtain c5 g10 where s10: "mutateCategorical toolInterfaces (toolInterface ?p) g9 = (c5, g10)"
    by (cases "mutateCategorical toolInterfaces (toolInterface ?p) g9")
  have r1: "0.5 \<le> v1 \<and> v1 \<le> 50.0 \<and> rng_ok g1"
    using mutateContinuous_res[OF s1] inv g by (simp add: inParameterSpace_def)
  have r2: "1000 \<le> v2 \<and> v2 \<le> 30000 \<and> rng_ok g2"
    using mutateContinuous_res[OF s2] inv r1 by (simp add: inParameterSpace_def)
  have r3: "50.0 \<le> v3 \<and> v3 \<le> 1000.0 \<and> rng_ok g3"
    using mutateContinuous_res[OF s3] inv r2 by (simp add: inParameterSpace_def)
  have r4: "100.0 \<le> v4 \<and> v4 \<le> 2000.0 \<and> rng_ok g4"
    using mutateContinuous_res[OF s4] inv r3 by (simp add: inParameterSpace_def)
  have r5: "0.0001 \<le> v5 \<and> v5 \<le> 0.01 \<and> rng_ok g5"
    using mutateContinuous_res[OF s5] inv r4 by (simp add: inParameterSpace_def)
  have r6: "c1 \<in> set spindleTypes \<and> rng_ok g6"
    using mutateCategorical_res[OF s6] inv r5 by (simp add: inParameterSpace_def)
  have r7: "c2 \<in> set bearingTypes \<and> rng_ok g7"
    using mutateCategorical_res[OF s7] inv r6 by (simp add: inParameterSpace_def)
  have r8: "c3 \<in> set coolingTypes \<and> rng_ok g8"
    using mutateCategorical_res[OF s8] inv r7 by (simp add: inParameterSpace_def)
  have r9: "c4 \<in> set lubricationTypes \<and> rng_ok g9"
    using mutateCategorical_res[OF s9] inv r8 by (simp add: inParameterSpace_def)
  have r10: "c5 \<in> set toolInterfaces \<and> rng_ok g10"
    using mutateCategorical_res[OF s10] inv r9 by (simp add: inParameterSpace_def)
  have sp: "1000 \<le> static_cast_int v2 \<and> static_cast_int v2 \<le> 30000"
    using static_cast_int_bounds[of 1000 v2 30000] r2 by simp
  have m: "mutate ind g =
      (ind\<lparr>params :=
           \<lparr>spindleType = c1, powerRating = v1, maxSpeed = static_cast_int v2,
            wheelDiameter = v3, bearingType = c2, bearingPreload = v4, coolingType = c3,
            lubricationType = c4, toolInterface = c5, alignmentTolerance = v5\<rparr>\<rparr>, g10)"
    unfolding mutate_def Let_def s1 s2 s3 s4 s5 s6 s7 s8 s9 s10 prod.case ..
  show ?thesis
    using r1 r2 r3 r4 r5 r6 r7 r8 r9 r10 sp by (simp add: m inParameterSpace_def)
qed

lemma exampleParameters_ok: "inParameterSpace exampleParameters"
  by (simp add: inParameterSpace_def exampleParameters_def spindleTypes_def bearingTypes_def
      coolingTypes_def lubricationTypes_def toolInterfaces_def)

lemma rng_ok_sconst: "0 \<le> x \<Longrightarrow> x < 1 \<Longrightarrow> rng_ok (sconst x)"
  by (simp add: rng_ok_def)


text \<open>
  C5. When the parameters of both parents (and of the individual given to \<open>mutate\<close>) lie
  inside the parameter space, so do the parameters that \<open>crossover\<close> and \<open>mutate\<close> return,
  also when \<open>mutate\<close> is applied to the child of \<open>crossover\<close> with the random source that
  \<open>crossover\<close> leaves, as the offspring loop does: the five continuous fields are inside their
  bounds and the five categorical fields belong to their enumerations. The random source is
  assumed to return numbers of \<open>[0, 1)\<close>.
\<close>

theorem crossover_mutate_preserve_parameter_space:
  assumes "inParameterSpace (params parent1)" and "inParameterSpace (params parent2)"
    and "inParameterSpace (params ind)" and "rng_ok g"
  shows "inParameterSpace (params (fst (crossover parent1 parent2 g))) \<and>
         inParameterSpace (params (fst (mutate ind g))) \<and>
         inParameterSpace (params (fst (mutate (fst (crossover parent1 parent2 g))
                                               (snd (crossover parent1 parent2 g)))))"
  using crossover_inParameterSpace[OF assms(1,2), of g] mutate_res[OF assms(3,4)]
    mutate_res[OF crossover_inParameterSpace[OF assms(1,2), of g]]
    rng_ok_sdrop[OF assms(4), of 10]
  by (simp add: crossover_rng)

theorem crossover_mutate_preserve_parameter_space_witness:
  "inParameterSpace (params (newIndividual\<lparr>params := exampleParameters\<rparr>)) \<and>
   rng_ok (sconst (1/20)) \<and>
   inParameterSpace (params (fst (crossover (newIndividual\<lparr>params := exampleParameters\<rparr>)
      (newIndividual\<lparr>params := exampleParameters\<rparr>) (sconst (1/20))))) \<and>
   inParameterSpace (params (fst (mutate (newIndividual\<lparr>params := exampleParameters\<rparr>)
      (sconst (1/20)))))"
  using crossover_mutate_preserve_parameter_space
    [of "newIndividual\<lparr>params := exampleParameters\<rparr>" "newIndividual\<lparr>params := exampleParameters\<rparr>"
        "newIndividual\<lparr>params := exampleParameters\<rparr>" "sconst (1/20)"]
    exampleParameters_ok rng_ok_sconst[of "1/20"]
  by simp

section \<open>Input validation\<close>

text \<open>
  C7. When the duration is not positive, or the load factor is outside \<open>[0.5, 2.0]\<close>, or the
  population size is below 10, or the generation count is below 1,
  \<open>optimizeSpindleArrangement\<close> fails with an \<open>Invalid_argument\<close> carrying one of the three
  messages of the source, and it does so before any population work: the random source is
  returned as it was given (no draw was made, so no random individual was generated) and the
  number of objective evaluations is zero.
\<close>

theorem invalid_configuration_rejected:
  assumes "duration \<le> 0 \<or> loadFactor < 0.5 \<or> loadFactor > 2.0 \<or> populationSize < 10 \<or> generations < 1"
  shows "\<exists>msg. msg \<in> {''Duration must be positive'', ''Load factor must be between 0.5 and 2.0'',
                     ''Population size must be at least 10 and generations at least 1''} \<and>
           optimizeSpindleArrangement duration loadFactor populationSize generations g =
             (Inl (Invalid_argument msg), g, 0)"
  using assms by (auto simp: optimizeSpindleArrangement_def validateInputs_def)

theorem invalid_configuration_rejected_witness:
  "(5::int) < 10 \<and>
   optimizeSpindleArrangement 10 1 5 20 (sconst (1/2)) =
     (Inl (Invalid_argument ''Population size must be at least 10 and generations at least 1''),
      sconst (1/2), 0)"
  using invalid_configuration_rejected[of 10 1 5 20 "sconst (1/2)"]
  by (simp add: optimizeSpindleArrangement_def validateInputs_def)


section \<open>Objective evaluation\<close>

lemma evaluateObjectives_try_length:
  "evaluateObjectives_try p duration loadFactor g = (Inr objs, g') \<Longrightarrow> length objs = 3"
  by (auto simp: evaluateObjectives_try_def Let_def split: prod.splits if_splits)

lemma evaluateObjectives_length:
  "length (objectives (fst (evaluateObjectives ind duration loadFactor g))) = 3"
  by (auto simp: evaluateObjectives_def worstCaseObjectives_def 
      split: prod.splits sum.splits dest: evaluateObjectives_try_length)

text \<open>
  C4. \<open>evaluateObjectives\<close> returns an individual in every case, never an error: its
  objective vector has exactly three elements and its parameters are unchanged; and whenever
  the evaluation inside the \<open>try\<close> block throws, the individual receives the worst-case
  objectives \<open>{1e10, -1e-10, 1e10}\<close> (huge vibration and temperature rise, a bearing life of
  almost nothing) instead of the exception being passed on.
\<close>

theorem evaluateObjectives_recovers_failure:
  "length (objectives (fst (evaluateObjectives ind duration loadFactor g))) = 3 \<and>
   params (fst (evaluateObjectives ind duration loadFactor g)) = params ind \<and>
   (\<forall>e g'. evaluateObjectives_try (params ind) duration loadFactor g = (Inl e, g') \<longrightarrow>
      evaluateObjectives ind duration loadFactor g =
        (ind\<lparr>objectives := [10000000000, - (1 / 10000000000), 10000000000]\<rparr>, g'))"
  using evaluateObjectives_length[of ind duration loadFactor g]
  by (auto simp: evaluateObjectives_def worstCaseObjectives_def split: prod.splits sum.splits)

lemma generateDynamicLoadProfile_short:
  "0 < duration \<Longrightarrow> duration < 0.1 \<Longrightarrow> generateDynamicLoadProfile p duration loadFactor g = ([], g)"
  by (simp add: generateDynamicLoadProfile_def Let_def static_cast_int_def)

theorem evaluateObjectives_recovers_failure_witness:
  "evaluateObjectives_try (params newIndividual) (1/20) 1 (sconst (1/2)) =
     (Inl (Runtime_error ''Empty load profile generated''), sconst (1/2)) \<and>
   evaluateObjectives newIndividual (1/20) 1 (sconst (1/2)) =
     (newIndividual\<lparr>objectives := [10000000000, - (1 / 10000000000), 10000000000]\<rparr>, sconst (1/2))"
proof -
  have t: "evaluateObjectives_try (params newIndividual) (1/20) 1 (sconst (1/2)) =
     (Inl (Runtime_error ''Empty load profile generated''), sconst (1/2))"
    by (simp add: evaluateObjectives_try_def generateDynamicLoadProfile_short)
  show ?thesis
    using evaluateObjectives_recovers_failure[of newIndividual "1/20" 1 "sconst (1/2)"] t
    by simp
qed

section \<open>Parent selection\<close>

lemma xgreater_asym: "xgreater a b \<Longrightarrow> \<not> xgreater b a"
  by (cases a; cases b) auto

lemma precedes_asym: "precedes a b \<Longrightarrow> \<not> precedes b a"
  by (auto simp: precedes_def dest: xgreater_asym)

lemma draw_index:
  assumes "0 \<le> r" "r < 1" "0 < n"
  shows "static_cast_size_t (r * real_of_int n) < nat n"
proof -
  have "r * real_of_int n < real_of_int n" using assms by simp
  then have "\<lfloor>r * real_of_int n\<rfloor> < n" by (simp add: floor_less_iff)
  then show ?thesis using assms(3) by (simp add: static_cast_size_t_def)
qed

lemma selectParents_indices:
  assumes "rng_ok g" and "0 < populationSize" and "length population = nat populationSize"
  shows "static_cast_size_t (shd g * real_of_int populationSize) < length population \<and>
         static_cast_size_t (shd (stl g) * real_of_int populationSize) < length population"
  using draw_index[of "shd g" populationSize] rng_ok_shd[OF assms(1)]
    draw_index[of "shd (stl g)" populationSize] rng_ok_shd[OF rng_ok_stl[OF assms(1)]]
    assms(2,3) by simp

lemma selectParents_ok:
  assumes "rng_ok g" and "0 < populationSize" and "length population = nat populationSize"
  shows "\<exists>first second. selectParents populationSize population g =
           (Inr (first, second), stl (stl g))"
  using selectParents_indices[OF assms]
  by (simp add: selectParents_def dist_rng_def Let_def)

lemma examplePopulation_length: "length examplePopulation = 10"
  by (simp add: examplePopulation_def)

lemma rng_ok_exampleDraws: "rng_ok exampleDraws"
  by (auto simp: rng_ok_def exampleDraws_def)

lemma example_indices:
  "static_cast_size_t (1/2) = 0" "static_cast_size_t (3/2) = 1"
  "static_cast_size_t (5/2) = 2" "static_cast_size_t (7/2) = 3"
  by (simp_all add: static_cast_size_t_def)

lemma selectParents_example:
  "selectParents 10 examplePopulation exampleDraws =
     (Inr (rankedIndividual 1, rankedIndividual 2), [5/20, 7/20] @- sconst (1/2))"
  by (simp add: selectParents_def exampleDraws_def dist_rng_def Let_def example_indices
      examplePopulation_def precedes_def rankedIndividual_def)

lemma specSelectParents_example:
  "specSelectParents 10 examplePopulation exampleDraws =
     (Inr (rankedIndividual 1, rankedIndividual 3), sconst (1/2))"
  by (simp add: specSelectParents_def specBinaryTournament_def exampleDraws_def dist_rng_def
      Let_def example_indices examplePopulation_def precedes_def rankedIndividual_def)

lemma rng_ok_tieDraws: "rng_ok tieDraws"
  by (auto simp: rng_ok_def tieDraws_def)

lemma tie_indices:
  "static_cast_size_t (shd tieDraws * 3) = 0"
  "static_cast_size_t (shd (stl tieDraws) * 3) = Suc 0"
  by (simp_all add: static_cast_size_t_def tieDraws_def)

lemma precedes_tie:
  "\<not> precedes (tradeoffIndividual 1) (tradeoffIndividual 2)"
  "\<not> precedes (tradeoffIndividual 2) (tradeoffIndividual 1)"
  by (simp_all add: precedes_def tradeoffIndividual_def)

text \<open>
  C8, as the claim states it, does not hold. On the example population and draws the code
  consumes two draws and passes the individuals of rank 1 and rank 2 (the loser of the
  comparison is the second parent), where two independent binary tournaments would consume
  four draws and pass the winners, of rank 1 and rank 3.
\<close>

theorem selectParents_not_two_tournaments:
  "selectParents 10 examplePopulation exampleDraws =
     (Inr (rankedIndividual 1, rankedIndividual 2), stl (stl exampleDraws)) \<and>
   specSelectParents 10 examplePopulation exampleDraws =
     (Inr (rankedIndividual 1, rankedIndividual 3), stl (stl (stl (stl exampleDraws)))) \<and>
   selectParents 10 examplePopulation exampleDraws \<noteq>
   specSelectParents 10 examplePopulation exampleDraws"
  by (simp add: selectParents_example specSelectParents_example)
    (simp add: exampleDraws_def rankedIndividual_def)

text \<open>
  C8, amended. For every offspring two indices are drawn (two draws, with replacement, both
  inside the population) and both individuals drawn become the parents passed to
  \<open>crossover\<close>. The comparison of rank and crowding distance only fixes their order: an
  individual that precedes the other (lower rank, or equal rank and larger crowding distance)
  is passed first, so the second argument never precedes the first. The order is fixed in
  every case: the first draw is passed first exactly when it precedes the second draw, and
  otherwise (the second draw precedes it, or neither precedes the other) the second draw is
  passed first.
\<close>

theorem selectParents_orders_two_draws:
  assumes "rng_ok g" and "0 < populationSize" and "length population = nat populationSize"
  shows "\<exists>idx1 idx2 first second.
           idx1 = static_cast_size_t (shd g * real_of_int populationSize) \<and> 
           idx2 = static_cast_size_t (shd (stl g) * real_of_int populationSize) \<and>
           idx1 < length population \<and> idx2 < length population \<and>
           selectParents populationSize population g = (Inr (first, second), stl (stl g)) \<and>
           ((first, second) = (population ! idx1, population ! idx2) \<or>
            (first, second) = (population ! idx2, population ! idx1)) \<and>
           \<not> precedes second first \<and>
           (precedes (population ! idx1) (population ! idx2) \<longrightarrow> first = population ! idx1) \<and>
           (precedes (population ! idx2) (population ! idx1) \<longrightarrow> first = population ! idx2) \<and>
           (precedes (population ! idx1) (population ! idx2) \<longrightarrow>
              (first, second) = (population ! idx1, population ! idx2)) \<and>
           (\<not> precedes (population ! idx1) (population ! idx2) \<longrightarrow>
              (first, second) = (population ! idx2, population ! idx1))"
proof -
  let ?i1 = "static_cast_size_t (shd g * real_of_int populationSize)"
  let ?i2 = "static_cast_size_t (shd (stl g) * real_of_int populationSize)"
  have i1: "?i1 < length population"
    using draw_index[of "shd g" populationSize] rng_ok_shd[OF assms(1)] assms(2,3) by simp
  have i2: "?i2 < length population"
    using draw_index[of "shd (stl g)" populationSize] rng_ok_shd[OF rng_ok_stl[OF assms(1)]]
      assms(2,3) by simp
  show ?thesis
  proof (cases "precedes (population ! ?i1) (population ! ?i2)")
    case True
    then show ?thesis
      using i1 i2 precedes_asym[OF True]
      by (simp add: selectParents_def dist_rng_def Let_def)
  next
    case False
    then show ?thesis
      using i1 i2
      by (simp add: selectParents_def dist_rng_def Let_def)
  qed
qed

theorem selectParents_orders_two_draws_witness:
  "rng_ok exampleDraws \<and> (0::int) < 10 \<and> length examplePopulation = nat 10 \<and>
   fst (selectParents 10 examplePopulation exampleDraws) =
     Inr (rankedIndividual 1, rankedIndividual 2) \<and>
   rng_ok tieDraws \<and> (0::int) < 3 \<and> length threeTradeoffs = nat 3 \<and>
   \<not> precedes (tradeoffIndividual 1) (tradeoffIndividual 2) \<and>
   \<not> precedes (tradeoffIndividual 2) (tradeoffIndividual 1) \<and>
   selectParents 3 threeTradeoffs tieDraws =
     (Inr (tradeoffIndividual 2, tradeoffIndividual 1), stl (stl tieDraws))"
proof -
  have len: "length threeTradeoffs = nat 3"
    by (simp add: threeTradeoffs_def)
  have first: "fst (selectParents 10 examplePopulation exampleDraws) =
      Inr (rankedIndividual 1, rankedIndividual 2)"
    using selectParents_orders_two_draws[of exampleDraws 10 examplePopulation]
      rng_ok_exampleDraws
    by (simp add: selectParents_example examplePopulation_length)
  have tie: "selectParents 3 threeTradeoffs tieDraws =
      (Inr (tradeoffIndividual 2, tradeoffIndividual 1), stl (stl tieDraws))"
    using selectParents_orders_two_draws[OF rng_ok_tieDraws _ len]
    by (simp add: tie_indices)
      (auto simp add: threeTradeoffs_def precedes_tie)
  show ?thesis
    using first tie len rng_ok_exampleDraws rng_ok_tieDraws precedes_tie
    by (simp add: examplePopulation_length)
qed

section \<open>The crowding distance is not recomputed from zero\<close>

lemma rankCombined_once:
  "rankCombined threeTradeoffs =
     ([tradeoffIndividual 1\<lparr>rank := 1, crowdingDistance := Infinity\<rparr>,
       tradeoffIndividual 2\<lparr>rank := 1, crowdingDistance := Finite 2\<rparr>,
       tradeoffIndividual 3\<lparr>rank := 1, crowdingDistance := Infinity\<rparr>], [[0, 1, 2]])"
  by code_simp

lemma rankCombined_twice:
  "rankCombined
     [tradeoffIndividual 1\<lparr>rank := 1, crowdingDistance := Infinity\<rparr>,
      tradeoffIndividual 2\<lparr>rank := 1, crowdingDistance := Finite 2\<rparr>,
      tradeoffIndividual 3\<lparr>rank := 1, crowdingDistance := Infinity\<rparr>] =
     ([tradeoffIndividual 1\<lparr>rank := 1, crowdingDistance := Infinity\<rparr>,
       tradeoffIndividual 2\<lparr>rank := 1, crowdingDistance := Finite 4\<rparr>,
       tradeoffIndividual 3\<lparr>rank := 1, crowdingDistance := Infinity\<rparr>], [[0, 1, 2]])"
  by code_simp

text \<open>
  C2 fails on the code. The Rank step of a generation, applied to three mutually
  non-dominating individuals that come fresh from their constructor, gives the middle one the
  crowding distance 2. Applied again to its own result, as happens to parents that survive
  into the next combined population, it gives 4 = 2 + 2, although the fronts and the
  objective values are the same both times: the old value is added to, not replaced.
\<close>

theorem rank_step_adds_to_old_crowding_distance:
  "map crowdingDistance (fst (rankCombined threeTradeoffs)) = [Infinity, Finite 2, Infinity] \<and>
   map crowdingDistance (fst (rankCombined (fst (rankCombined threeTradeoffs)))) =
     [Infinity, Finite 4, Infinity] \<and>
   snd (rankCombined (fst (rankCombined threeTradeoffs))) = snd (rankCombined threeTradeoffs) \<and>
   map objectives (fst (rankCombined threeTradeoffs)) = map objectives threeTradeoffs"
  unfolding rankCombined_once fst_conv snd_conv rankCombined_twice
  by (simp add: threeTradeoffs_def)

section \<open>Properties of the crowding loops\<close>

subsection \<open>Sorting\<close>

lemma mset_insertBy: "mset (insertBy cmp x xs) = add_mset x (mset xs)"
  by (induction xs) auto

lemma sortBy_Cons: "sortBy cmp (x # xs) = insertBy cmp x (sortBy cmp xs)"
  by (simp add: sortBy_def)

lemma sortBy_Nil: "sortBy cmp [] = []"
  by (simp add: sortBy_def)

lemma mset_sortBy: "mset (sortBy cmp xs) = mset xs"
  by (induction xs) (simp_all add: sortBy_Nil sortBy_Cons mset_insertBy)

lemma set_sortBy: "set (sortBy cmp xs) = set xs"
  using mset_sortBy[of cmp xs] by (metis set_mset_mset)

lemma length_sortBy: "length (sortBy cmp xs) = length xs"
  using mset_sortBy[of cmp xs] by (metis size_mset)

lemma insertBy_cong:
  "(\<And>y. y \<in> set xs \<Longrightarrow> cmp x y = cmp' x y) \<Longrightarrow> insertBy cmp x xs = insertBy cmp' x xs"
  by (induction xs) auto

lemma sortBy_cong:
  "(\<And>a b. a \<in> set xs \<Longrightarrow> b \<in> set xs \<Longrightarrow> cmp a b = cmp' a b) \<Longrightarrow> sortBy cmp xs = sortBy cmp' xs"
proof (induction xs)
  case Nil
  then show ?case by (simp add: sortBy_Nil)
next
  case (Cons x xs)
  have "sortBy cmp xs = sortBy cmp' xs" using Cons by simp
  moreover have "insertBy cmp x (sortBy cmp' xs) = insertBy cmp' x (sortBy cmp' xs)"
    by (rule insertBy_cong) (simp add: set_sortBy Cons.prems)
  ultimately show ?case by (simp add: sortBy_Cons)
qed

lemma sorted_insertBy:
  fixes key :: "'a \<Rightarrow> real"
  assumes "\<And>y. y \<in> set xs \<Longrightarrow> cmp x y \<longleftrightarrow> key x < key y"
    and "sorted_wrt (\<lambda>a b. key a \<le> key b) xs"
  shows "sorted_wrt (\<lambda>a b. key a \<le> key b) (insertBy cmp x xs)"
  using assms
proof (induction xs)
  case Nil
  then show ?case by simp
next
  case (Cons y ys)
  show ?case
  proof (cases "cmp x y")
    case True
    then have "key x < key y" using Cons.prems(1) by simp
    then show ?thesis using True Cons.prems(2) by (auto intro: order_trans less_imp_le)
  next
    case False
    then have le: "key y \<le> key x" using Cons.prems(1)[of y] by simp
    have "sorted_wrt (\<lambda>a b. key a \<le> key b) (insertBy cmp x ys)"
      using Cons by simp
    moreover have "\<forall>z \<in> set (insertBy cmp x ys). key y \<le> key z"
      using le Cons.prems(2) mset_insertBy[of cmp x ys]
      by (metis insert_iff set_mset_add_mset_insert set_mset_mset sorted_wrt.simps(2))
    ultimately show ?thesis using False by simp
  qed
qed

lemma sorted_sortBy:
  fixes key :: "'a \<Rightarrow> real"
  assumes "\<And>a b. a \<in> set xs \<Longrightarrow> b \<in> set xs \<Longrightarrow> cmp a b \<longleftrightarrow> key a < key b"
  shows "sorted_wrt (\<lambda>a b. key a \<le> key b) (sortBy cmp xs)"
  using assms
proof (induction xs)
  case Nil
  then show ?case by (simp add: sortBy_Nil)
next
  case (Cons x xs)
  have "sorted_wrt (\<lambda>a b. key a \<le> key b) (sortBy cmp xs)" using Cons by simp
  then show ?case
    unfolding sortBy_Cons
    by (rule sorted_insertBy[rotated]) (simp add: set_sortBy Cons.prems)
qed

lemma sorted_wrt_hd_least:
  fixes key :: "'a \<Rightarrow> real"
  assumes "sorted_wrt (\<lambda>a b. key a \<le> key b) ys" "y \<in> set ys"
  shows "key (hd ys) \<le> key y"
  using assms by (cases ys) auto

lemma sorted_wrt_last_greatest:
  fixes key :: "'a \<Rightarrow> real"
  assumes "sorted_wrt (\<lambda>a b. key a \<le> key b) ys" "y \<in> set ys"
  shows "key y \<le> key (last ys)"
  using assms
proof (induction ys)
  case Nil
  then show ?case by simp
next
  case (Cons a ys)
  then show ?case by (cases ys) auto
qed

subsection \<open>What the crowding loops change\<close>

lemma nth_list_update_if:
  "xs[i := y] ! j = (if i = j \<and> j < length xs then y else xs ! j)"
  by (cases "i = j") (auto simp: list_update_beyond)

lemma crowdingUpdate_refl: "crowdingUpdate pop pop"
  by (simp add: crowdingUpdate_def)

lemma crowdingUpdate_trans:
  "crowdingUpdate p q \<Longrightarrow> crowdingUpdate q r \<Longrightarrow> crowdingUpdate p r"
  by (simp add: crowdingUpdate_def)

lemma crowdingUpdate_length: "crowdingUpdate p q \<Longrightarrow> length q = length p"
  by (simp add: crowdingUpdate_def)

lemma crowdingUpdate_inf:
  "crowdingUpdate p q \<Longrightarrow> i < length p \<Longrightarrow> crowdingDistance (p ! i) = Infinity \<Longrightarrow>
   crowdingDistance (q ! i) = Infinity"
  by (simp add: crowdingUpdate_def)

lemma crowdingUpdate_setInfinite: "crowdingUpdate pop (setInfinite i pop)"
  by (simp add: crowdingUpdate_def setInfinite_def nth_list_update_if)

lemma crowdingUpdate_addDistance: "crowdingUpdate pop (addDistance i d pop)"
  by (simp add: crowdingUpdate_def addDistance_def nth_list_update_if)

lemma setInfinite_at: "i < length pop \<Longrightarrow> crowdingDistance (setInfinite i pop ! i) = Infinity"
  by (simp add: setInfinite_def)

lemma crowdingUpdate_fold:
  assumes "\<And>x p. crowdingUpdate p (f x p)"
  shows "crowdingUpdate pop (fold f xs pop)"
proof (induction xs arbitrary: pop)
  case Nil
  then show ?case by (simp add: crowdingUpdate_refl)
next
  case (Cons x xs)
  show ?case
    using crowdingUpdate_trans[OF assms[of pop x] Cons[of "f x pop"]] by simp
qed

lemma boundariesInfinite_mono:
  assumes "crowdingUpdate pop pop'" "set front \<subseteq> {..<length pop}" "boundariesInfinite pop front k"
  shows "boundariesInfinite pop' front k"
proof -
  have eq: "\<And>i. i \<in> set front \<Longrightarrow> objectives (pop' ! i) = objectives (pop ! i)"
    and inf: "\<And>i. i \<in> set front \<Longrightarrow> crowdingDistance (pop ! i) = Infinity \<Longrightarrow>
                 crowdingDistance (pop' ! i) = Infinity"
    using assms(1,2) by (auto simp: crowdingUpdate_def)
  obtain a where a: "a \<in> set front" "crowdingDistance (pop ! a) = Infinity"
      "\<forall>j \<in> set front. objectives (pop ! a) ! k \<le> objectives (pop ! j) ! k"
    using assms(3) unfolding boundariesInfinite_def by blast
  obtain b where b: "b \<in> set front" "crowdingDistance (pop ! b) = Infinity"
      "\<forall>j \<in> set front. objectives (pop ! j) ! k \<le> objectives (pop ! b) ! k"
    using assms(3) unfolding boundariesInfinite_def by blast
  have "\<exists>i \<in> set front. crowdingDistance (pop' ! i) = Infinity \<and>
        (\<forall>j \<in> set front. objectives (pop' ! i) ! k \<le> objectives (pop' ! j) ! k)"
    using a inf[OF a(1,2)] by (intro bexI[of _ a]) (simp_all add: eq)
  moreover have "\<exists>i \<in> set front. crowdingDistance (pop' ! i) = Infinity \<and>
        (\<forall>j \<in> set front. objectives (pop' ! j) ! k \<le> objectives (pop' ! i) ! k)"
    using b inf[OF b(1,2)] by (intro bexI[of _ b]) (simp_all add: eq)
  ultimately show ?thesis unfolding boundariesInfinite_def by simp
qed

lemma boundariesInfinite_set:
  "set front = set front' \<Longrightarrow> boundariesInfinite pop front k = boundariesInfinite pop front' k"
  by (simp add: boundariesInfinite_def)

lemma frontCrowded_mono:
  assumes "crowdingUpdate pop pop'" "set front \<subseteq> {..<length pop}" "frontCrowded m pop front"
  shows "frontCrowded m pop' front"
proof -
  have inf: "\<And>i. i \<in> set front \<Longrightarrow> crowdingDistance (pop ! i) = Infinity \<Longrightarrow>
                 crowdingDistance (pop' ! i) = Infinity"
    using assms(1,2) by (auto simp: crowdingUpdate_def)
  show ?thesis
    using assms(3) boundariesInfinite_mono[OF assms(1,2)] inf
    unfolding frontCrowded_def by blast
qed

subsection \<open>One objective\<close>

lemma crowdingObjective_update:
  "crowdingUpdate pop (fst (crowdingObjective k (pop, sf))) \<and>
   mset (snd (crowdingObjective k (pop, sf))) = mset sf"
proof -
  have f: "crowdingUpdate p (fold (\<lambda>i p.
                 if i + 1 < length (sorted :: nat list) \<and> i \<ge> 1
                 then addDistance (sorted ! i)
                        ((objectives (p ! (sorted ! (i + 1))) ! k -
                          objectives (p ! (sorted ! (i - 1))) ! k) / objRange) p
                 else p) xs p)" for p sorted objRange xs
    by (rule crowdingUpdate_fold) (simp add: crowdingUpdate_addDistance crowdingUpdate_refl)
  have s: "crowdingUpdate pop (setInfinite b (setInfinite a pop))" for a b
    using crowdingUpdate_trans[OF crowdingUpdate_setInfinite crowdingUpdate_setInfinite] .
  show ?thesis
    using crowdingUpdate_trans[OF s f]
    by (simp add: crowdingObjective_def Let_def s mset_sortBy)
qed

lemma crowdingObjective_boundaries:
  assumes "sf \<noteq> []" "set sf \<subseteq> {..<length pop}"
  shows "boundariesInfinite (fst (crowdingObjective k (pop, sf))) sf k"
proof -
  let ?cmp = "\<lambda>a b. objectives (pop ! a) ! k < objectives (pop ! b) ! k"
  let ?key = "\<lambda>a. objectives (pop ! a) ! k"
  let ?sorted = "sortBy ?cmp sf"
  let ?pop2 = "setInfinite (last ?sorted) (setInfinite (hd ?sorted) pop)"
  have ne: "?sorted \<noteq> []" using assms(1) length_sortBy[of ?cmp sf] by (metis length_0_conv)
  have hd_in: "hd ?sorted \<in> set sf" using ne set_sortBy[of ?cmp sf] by (metis hd_in_set)
  have last_in: "last ?sorted \<in> set sf" using ne set_sortBy[of ?cmp sf] by (metis last_in_set)
  have srt: "sorted_wrt (\<lambda>a b. ?key a \<le> ?key b) ?sorted"
    by (rule sorted_sortBy) simp
  have least: "\<forall>j \<in> set sf. ?key (hd ?sorted) \<le> ?key j"
    using sorted_wrt_hd_least[OF srt] by (simp add: set_sortBy)
  have greatest: "\<forall>j \<in> set sf. ?key j \<le> ?key (last ?sorted)"
    using sorted_wrt_last_greatest[OF srt] by (simp add: set_sortBy)
  have up1: "crowdingUpdate pop (setInfinite (hd ?sorted) pop)"
    by (rule crowdingUpdate_setInfinite)
  have up2: "crowdingUpdate (setInfinite (hd ?sorted) pop) ?pop2"
    by (rule crowdingUpdate_setInfinite)
  have hd_lt: "hd ?sorted < length pop" using hd_in assms(2) by auto
  have hd_inf: "crowdingDistance (?pop2 ! hd ?sorted) = Infinity"
    using crowdingUpdate_inf[OF up2, of "hd ?sorted"] setInfinite_at[OF hd_lt]
      crowdingUpdate_length[OF up1] hd_lt by simp
  have last_inf: "crowdingDistance (?pop2 ! last ?sorted) = Infinity"
    using setInfinite_at[of "last ?sorted" "setInfinite (hd ?sorted) pop"] last_in assms(2)
      crowdingUpdate_length[OF up1] by auto
  have up: "crowdingUpdate pop ?pop2" using crowdingUpdate_trans[OF up1 up2] .
  have obj: "\<And>j. j \<in> set sf \<Longrightarrow> objectives (?pop2 ! j) = objectives (pop ! j)"
    using up assms(2) by (auto simp: crowdingUpdate_def)
  have "\<exists>i \<in> set sf. crowdingDistance (?pop2 ! i) = Infinity \<and>
        (\<forall>j \<in> set sf. objectives (?pop2 ! i) ! k \<le> objectives (?pop2 ! j) ! k)"
    using hd_in hd_inf least by (intro bexI[of _ "hd ?sorted"]) (simp_all add: obj)
  moreover have "\<exists>i \<in> set sf. crowdingDistance (?pop2 ! i) = Infinity \<and>
        (\<forall>j \<in> set sf. objectives (?pop2 ! j) ! k \<le> objectives (?pop2 ! i) ! k)"
    using last_in last_inf greatest by (intro bexI[of _ "last ?sorted"]) (simp_all add: obj)
  ultimately have b2: "boundariesInfinite ?pop2 sf k"
    unfolding boundariesInfinite_def by simp
  have up3: "crowdingUpdate ?pop2 (fst (crowdingObjective k (pop, sf)))"
  proof -
    have f: "crowdingUpdate p (fold (\<lambda>i p.
                 if i + 1 < length (sorted :: nat list) \<and> i \<ge> 1
                 then addDistance (sorted ! i)
                        ((objectives (p ! (sorted ! (i + 1))) ! k -
                          objectives (p ! (sorted ! (i - 1))) ! k) / objRange) p
                 else p) xs p)" for p sorted objRange xs
      by (rule crowdingUpdate_fold) (simp add: crowdingUpdate_addDistance crowdingUpdate_refl)
    show ?thesis
      using f by (simp add: crowdingObjective_def Let_def crowdingUpdate_refl)
  qed
  have "set sf \<subseteq> {..<length ?pop2}" using assms(2) crowdingUpdate_length[OF up] by simp
  then show ?thesis using boundariesInfinite_mono[OF up3 _ b2] by simp
qed

subsection \<open>One front\<close>

lemma fold_crowdingObjective:
  assumes "sf \<noteq> []" "set sf \<subseteq> {..<length pop}"
  shows "crowdingUpdate pop (fst (fold crowdingObjective ks (pop, sf))) \<and>
         mset (snd (fold crowdingObjective ks (pop, sf))) = mset sf \<and>
         (\<forall>k \<in> set ks. boundariesInfinite (fst (fold crowdingObjective ks (pop, sf))) sf k)"
  using assms
proof (induction ks arbitrary: pop sf rule: rev_induct)
  case Nil
  then show ?case by (simp add: crowdingUpdate_refl)
next
  case (snoc k ks)
  let ?st = "fold crowdingObjective ks (pop, sf)"
  let ?p = "fst ?st" and ?s = "snd ?st"
  have ih: "crowdingUpdate pop ?p" "mset ?s = mset sf"
    "\<forall>k \<in> set ks. boundariesInfinite ?p sf k"
    using snoc.IH[OF snoc.prems] by simp_all
  have sets: "set ?s = set sf" using ih(2) by (metis set_mset_mset)
  have ne: "?s \<noteq> []" using ih(2) snoc.prems(1) by (metis mset_zero_iff)
  have sub: "set ?s \<subseteq> {..<length ?p}"
    using sets snoc.prems(2) crowdingUpdate_length[OF ih(1)] by simp
  have sub': "set sf \<subseteq> {..<length ?p}" using sub sets by simp
  have st: "fold crowdingObjective (ks @ [k]) (pop, sf) = crowdingObjective k (?p, ?s)"
    by simp
  have u: "crowdingUpdate ?p (fst (crowdingObjective k (?p, ?s)))"
    and m: "mset (snd (crowdingObjective k (?p, ?s))) = mset ?s"
    using crowdingObjective_update[of ?p k ?s] by simp_all
  have b: "boundariesInfinite (fst (crowdingObjective k (?p, ?s))) sf k"
    using crowdingObjective_boundaries[OF ne sub, of k] boundariesInfinite_set[OF sets] by simp
  have old: "\<forall>k' \<in> set ks. boundariesInfinite (fst (crowdingObjective k (?p, ?s))) sf k'"
    using ih(3) boundariesInfinite_mono[OF u sub'] by blast
  show ?case
    unfolding st using crowdingUpdate_trans[OF ih(1) u] m ih(2) b old by auto
qed

lemma fold_setInfinite:
  "crowdingUpdate pop (fold setInfinite front pop) \<and>
   (set front \<subseteq> {..<length pop} \<longrightarrow>
      (\<forall>i \<in> set front. crowdingDistance (fold setInfinite front pop ! i) = Infinity))"
proof (induction front arbitrary: pop)
  case Nil
  then show ?case by (simp add: crowdingUpdate_refl)
next
  case (Cons a front)
  let ?p = "setInfinite a pop"
  have u: "crowdingUpdate pop ?p" by (rule crowdingUpdate_setInfinite)
  have ih: "crowdingUpdate ?p (fold setInfinite front ?p)"
    "set front \<subseteq> {..<length ?p} \<longrightarrow>
      (\<forall>i \<in> set front. crowdingDistance (fold setInfinite front ?p ! i) = Infinity)"
    using Cons[of ?p] by simp_all
  have len: "length ?p = length pop" using crowdingUpdate_length[OF u] .
  have a: "a < length pop \<Longrightarrow> crowdingDistance (fold setInfinite front ?p ! a) = Infinity"
    using crowdingUpdate_inf[OF ih(1), of a] setInfinite_at[of a pop] len by simp
  show ?case
    using crowdingUpdate_trans[OF u ih(1)] ih(2) a len by auto
qed

lemma crowdingFront_update: "crowdingUpdate pop (crowdingFront front pop)"
proof (cases "length front \<le> 2")
  case True
  then show ?thesis using fold_setInfinite[of pop front] by (simp add: crowdingFront_def)
next
  case False
  have f: "crowdingUpdate (fst st) (fst (fold crowdingObjective ks st))" for ks st
  proof (induction ks arbitrary: st)
    case Nil
    then show ?case by (simp add: crowdingUpdate_refl)
  next
    case (Cons k ks)
    obtain p s where st: "st = (p, s)" by (cases st)
    have "crowdingUpdate p (fst (crowdingObjective k (p, s)))"
      using crowdingObjective_update by simp
    then show ?case
      using crowdingUpdate_trans[OF _ Cons[of "crowdingObjective k (p, s)"]] by (simp add: st)
  qed
  show ?thesis using False f[of "(pop, front)"] by (simp add: crowdingFront_def)
qed

lemma crowdingFront_crowded:
  assumes "set front \<subseteq> {..<length pop}"
  shows "frontCrowded (length (objectives (pop ! hd front))) (crowdingFront front pop) front"
proof (cases "length front \<le> 2")
  case True
  then show ?thesis
    using fold_setInfinite[of pop front] assms by (simp add: crowdingFront_def frontCrowded_def)
next
  case False
  then have ne: "front \<noteq> []" by auto
  show ?thesis
    using False fold_crowdingObjective[OF ne assms, of "[0..<length (objectives (pop ! hd front))]"]
    by (simp add: crowdingFront_def frontCrowded_def)
qed

subsection \<open>All fronts\<close>

lemma fold_crowdingFront_update: "crowdingUpdate pop (fold crowdingFront fronts pop)"
  by (rule crowdingUpdate_fold) (rule crowdingFront_update)

lemma fold_crowdingFront_crowded:
  assumes "\<forall>front \<in> set fronts. set front \<subseteq> {..<length pop}"
    and "\<forall>front \<in> set fronts. front \<noteq> [] \<longrightarrow> length (objectives (pop ! hd front)) = m"
  shows "\<forall>front \<in> set fronts. frontCrowded m (fold crowdingFront fronts pop) front"
  using assms
proof (induction fronts arbitrary: pop rule: rev_induct)
  case Nil
  then show ?case by simp
next
  case (snoc f fs)
  let ?p = "fold crowdingFront fs pop"
  have u: "crowdingUpdate pop ?p" by (rule fold_crowdingFront_update)
  have len: "length ?p = length pop" using crowdingUpdate_length[OF u] .
  have ih: "\<forall>front \<in> set fs. frontCrowded m ?p front"
    using snoc.IH snoc.prems by simp
  have fsub: "set f \<subseteq> {..<length ?p}" using snoc.prems(1) len by simp
  have u2: "crowdingUpdate ?p (crowdingFront f ?p)" by (rule crowdingFront_update)
  have hdobj: "f \<noteq> [] \<Longrightarrow> length (objectives (?p ! hd f)) = m"
  proof -
    assume ne: "f \<noteq> []"
    then have "hd f < length pop" using snoc.prems(1) by (cases f) auto
    then have "objectives (?p ! hd f) = objectives (pop ! hd f)"
      using u by (simp add: crowdingUpdate_def)
    then show ?thesis using snoc.prems(2) ne by simp
  qed
  have new: "frontCrowded m (crowdingFront f ?p) f"
  proof (cases "f = []")
    case True
    then show ?thesis by (simp add: frontCrowded_def)
  next
    case False
    then show ?thesis using crowdingFront_crowded[OF fsub] hdobj by simp
  qed
  have old: "\<forall>front \<in> set fs. frontCrowded m (crowdingFront f ?p) front"
  proof
    fix front assume "front \<in> set fs"
    then show "frontCrowded m (crowdingFront f ?p) front"
      using frontCrowded_mono[OF u2, of front m] ih snoc.prems(1) len by simp
  qed
  show ?case using new old by simp
qed

subsection \<open>The checked copy of the crowding loop\<close>

lemma fold_cong_inv:
  assumes "I s" and "\<And>x s. x \<in> set xs \<Longrightarrow> I s \<Longrightarrow> f x s = g x s \<and> I (g x s)"
  shows "fold f xs s = fold g xs s \<and> I (fold g xs s)"
  using assms
proof (induction xs arbitrary: s)
  case Nil
  then show ?case by simp
next
  case (Cons x xs)
  have 1: "f x s = g x s" "I (g x s)" using Cons.prems(2)[of x s] Cons.prems(1) by simp_all
  have "fold f xs (g x s) = fold g xs (g x s) \<and> I (fold g xs (g x s))"
    by (rule Cons.IH[OF 1(2)]) (simp add: Cons.prems(2))
  then show ?case using 1 by simp
qed

lemma length_setInfinite: "length (setInfinite i pop) = length pop"
  by (simp add: setInfinite_def)

lemma length_addDistance: "length (addDistance i d pop) = length pop"
  by (simp add: addDistance_def)

lemma crowdingObjectiveChecked_eq:
  assumes sub: "set sf \<subseteq> {..<length pop}" and len: "2 < length sf"
  shows "crowdingObjectiveChecked k (pop, sf) = crowdingObjective k (pop, sf)"
proof -
  let ?n = "length pop"
  let ?cmp = "\<lambda>a b. objectives (pop ! a) ! k < objectives (pop ! b) ! k"
  let ?cmpc = "\<lambda>a b. if a \<ge> ?n \<or> b \<ge> ?n then False
                        else objectives (pop ! a) ! k < objectives (pop ! b) ! k"
  let ?sorted = "sortBy ?cmp sf"
  have srt: "sortBy ?cmpc sf = ?sorted"
    by (rule sortBy_cong) (use sub in auto)
  have slen: "length ?sorted = length sf" by (rule length_sortBy)
  have sset: "set ?sorted = set sf" by (rule set_sortBy)
  have ne: "?sorted \<noteq> []" using len slen by auto
  have hd_lt: "hd ?sorted < ?n" using ne sset sub hd_in_set[OF ne] by auto
  have last_lt: "last ?sorted < ?n" using ne sset sub last_in_set[OF ne] by auto
  have nth_lt: "\<And>i. i < length ?sorted \<Longrightarrow> ?sorted ! i < ?n"
    using sset sub nth_mem by fastforce
  let ?pop2 = "setInfinite (last ?sorted) (setInfinite (hd ?sorted) pop)"
  have fold_eq: "fold (\<lambda>i p.
                       if i + 1 < length ?sorted \<and> i \<ge> 1 \<and> ?sorted ! i < length p \<and>
                          ?sorted ! (i + 1) < length p \<and> ?sorted ! (i - 1) < length p
                       then addDistance (?sorted ! i)
                              ((objectives (p ! (?sorted ! (i + 1))) ! k -
                                objectives (p ! (?sorted ! (i - 1))) ! k) / r) p
                       else p) [1..<length ?sorted - 1] ?pop2 =
                 fold (\<lambda>i p.
                       if i + 1 < length ?sorted \<and> i \<ge> 1
                       then addDistance (?sorted ! i)
                              ((objectives (p ! (?sorted ! (i + 1))) ! k -
                                objectives (p ! (?sorted ! (i - 1))) ! k) / r) p
                       else p) [1..<length ?sorted - 1] ?pop2" for r
  proof -
    have "length ?pop2 = ?n" by (simp add: length_setInfinite)
    then show ?thesis
      using fold_cong_inv[where I = "\<lambda>p. length p = ?n" and s = ?pop2
          and xs = "[1..<length ?sorted - 1]"
          and f = "\<lambda>i p.
                       if i + 1 < length ?sorted \<and> i \<ge> 1 \<and> ?sorted ! i < length p \<and>
                          ?sorted ! (i + 1) < length p \<and> ?sorted ! (i - 1) < length p
                       then addDistance (?sorted ! i)
                              ((objectives (p ! (?sorted ! (i + 1))) ! k -
                                objectives (p ! (?sorted ! (i - 1))) ! k) / r) p
                       else p"
          and g = "\<lambda>i p.
                       if i + 1 < length ?sorted \<and> i \<ge> 1
                       then addDistance (?sorted ! i)
                              ((objectives (p ! (?sorted ! (i + 1))) ! k -
                                objectives (p ! (?sorted ! (i - 1))) ! k) / r) p
                       else p"]
      by (simp add: nth_lt length_addDistance)
  qed
  have p1: "(if ?sorted \<noteq> [] \<and> hd ?sorted < length pop
             then setInfinite (hd ?sorted) pop else pop) = setInfinite (hd ?sorted) pop"
    using ne hd_lt by simp
  have p2: "(if ?sorted \<noteq> [] \<and> last ?sorted < length (setInfinite (hd ?sorted) pop)
             then setInfinite (last ?sorted) (setInfinite (hd ?sorted) pop)
             else setInfinite (hd ?sorted) pop) = ?pop2"
    using ne last_lt by (simp add: length_setInfinite)
  have l2: "\<not> length ?sorted \<le> 2" using len slen by simp
  show ?thesis
    unfolding crowdingObjectiveChecked_def crowdingObjective_def prod.case Let_def srt p1 p2
      fold_eq
    using l2 by simp
qed

lemma crowdingFrontChecked_eq:
  assumes "set front \<subseteq> {..<length pop}"
  shows "crowdingFrontChecked front pop = crowdingFront front pop"
proof (cases "length front \<le> 2")
  case True
  have "(\<lambda>i p. if i < length p then setInfinite i p else p) = setInfinite"
    by (intro ext) (simp add: setInfinite_def list_update_beyond)
  then show ?thesis using True by (simp add: crowdingFrontChecked_def crowdingFront_def)
next
  case False
  let ?I = "\<lambda>st. set (snd st) \<subseteq> {..<length (fst st)} \<and> 2 < length (snd st)"
  have step: "crowdingObjectiveChecked k st = crowdingObjective k st \<and>
              ?I (crowdingObjective k st)" if "?I st" for k st
  proof -
    obtain p s where st: "st = (p, s)" by (cases st)
    have 1: "crowdingObjectiveChecked k (p, s) = crowdingObjective k (p, s)"
      using crowdingObjectiveChecked_eq[of s p k] that by (simp add: st)
    have u: "crowdingUpdate p (fst (crowdingObjective k (p, s)))"
      and m: "mset (snd (crowdingObjective k (p, s))) = mset s"
      using crowdingObjective_update[of p k s] by simp_all
    have "set (snd (crowdingObjective k (p, s))) = set s" using m by (metis set_mset_mset)
    moreover have "length (snd (crowdingObjective k (p, s))) = length s"
      using m by (metis size_mset)
    ultimately show ?thesis
      using 1 that crowdingUpdate_length[OF u] by (simp add: st)
  qed
  have "fold crowdingObjectiveChecked ks (pop, front) = fold crowdingObjective ks (pop, front)"
    for ks
    using fold_cong_inv[where I = ?I and s = "(pop, front)" and xs = ks
        and f = crowdingObjectiveChecked and g = crowdingObjective] step assms False
    by simp
  then show ?thesis using False by (simp add: crowdingFrontChecked_def crowdingFront_def)
qed

lemma fold_crowdingFrontChecked_eq:
  assumes "\<forall>front \<in> set fronts. set front \<subseteq> {..<length pop}"
  shows "fold crowdingFrontChecked fronts pop = fold crowdingFront fronts pop"
proof -
  have "fold crowdingFrontChecked fronts pop = fold crowdingFront fronts pop \<and>
        length (fold crowdingFront fronts pop) = length pop"
  proof (rule fold_cong_inv[where I = "\<lambda>p. length p = length pop"])
    show "length pop = length pop" by simp
  next
    fix front :: "nat list" and p :: "Individual list"
    assume "front \<in> set fronts" "length p = length pop"
    then show "crowdingFrontChecked front p = crowdingFront front p \<and>
               length (crowdingFront front p) = length pop"
      using crowdingFrontChecked_eq[of front p] assms
        crowdingUpdate_length[OF crowdingFront_update[of p front]] by simp
  qed
  then show ?thesis by simp
qed

section \<open>Properties of the non-dominated sorting\<close>

subsection \<open>Dominance is a strict partial order\<close>

lemma dominatesLoop_iff:
  "length as = length bs \<Longrightarrow>
   dominatesLoop as bs better \<longleftrightarrow>
     (\<forall>i<length as. as ! i \<le> bs ! i) \<and> (better \<or> (\<exists>i<length as. as ! i < bs ! i))"
proof (induction as bs arbitrary: better rule: list_induct2)
  case Nil
  then show ?case by simp
next
  case (Cons a as b bs)
  show ?case
    by (auto simp: Cons.IH All_less_Suc2 Ex_less_Suc2)
qed

lemma dominates_iff:
  assumes "length (objectives a) = length (objectives b)"
  shows "dominates a b \<longleftrightarrow>
     (\<forall>i<length (objectives a). objectives a ! i \<le> objectives b ! i) \<and>
     (\<exists>i<length (objectives a). objectives a ! i < objectives b ! i)"
  using dominatesLoop_iff[OF assms, of False] by (simp add: dominates_def)

lemma dominates_irrefl: "\<not> dominates a a"
  by (simp add: dominates_iff)

lemma dominates_trans:
  assumes "length (objectives a) = m" "length (objectives b) = m" "length (objectives c) = m"
    and "dominates a b" "dominates b c"
  shows "dominates a c"
proof -
  have ab: "\<forall>i<m. objectives a ! i \<le> objectives b ! i"
    and bc: "\<forall>i<m. objectives b ! i \<le> objectives c ! i"
    using assms by (simp_all add: dominates_iff)
  obtain i where i: "i < m" "objectives a ! i < objectives b ! i"
    using assms by (auto simp: dominates_iff)
  have "objectives a ! i < objectives c ! i" using i bc by force
  moreover have "\<forall>i<m. objectives a ! i \<le> objectives c ! i" using ab bc by force
  ultimately show ?thesis using i(1) assms(1,3) by (auto simp: dominates_iff)
qed

lemma dominates_asym:
  assumes "length (objectives a) = m" "length (objectives b) = m" "dominates a b"
  shows "\<not> dominates b a"
  using dominates_trans[OF assms(1,2,1) assms(3)] dominates_irrefl by blast

lemma dominates_objectives_cong:
  "objectives a = objectives a' \<Longrightarrow> objectives b = objectives b' \<Longrightarrow>
   dominates a b = dominates a' b'"
  by (simp add: dominates_def)

subsection \<open>The first pass\<close>

lemma rankUpdate_refl: "rankUpdate pop pop"
  by (simp add: rankUpdate_def)

lemma rankUpdate_trans: "rankUpdate p q \<Longrightarrow> rankUpdate q r \<Longrightarrow> rankUpdate p r"
  by (simp add: rankUpdate_def)

lemma rankUpdate_length: "rankUpdate p q \<Longrightarrow> length q = length p"
  by (simp add: rankUpdate_def)

lemma rankUpdate_set_rank: "rankUpdate pop (pop[i := (pop ! i)\<lparr>rank := r\<rparr>])"
  by (simp add: rankUpdate_def nth_list_update_if)

lemma rankUpdate_dominates:
  "rankUpdate pop p \<Longrightarrow> i < length pop \<Longrightarrow> j < length pop \<Longrightarrow>
   dominates (p ! i) (p ! j) = dominates (pop ! i) (pop ! j)"
  by (simp add: rankUpdate_def dominates_def)

lemma compareWith_step:
  assumes "i < length cnt" "i < length D"
  shows "compareWith pop i m (cnt[i := a], D[i := xs]) =
    (cnt[i := a + (if m \<noteq> i \<and> \<not> dominates (pop ! i) (pop ! m) \<and> dominates (pop ! m) (pop ! i)
                   then 1 else 0)],
     D[i := xs @ (if m \<noteq> i \<and> dominates (pop ! i) (pop ! m) then [m] else [])])"
  using assms by (simp add: compareWith_def)

lemma fold_compareWith:
  assumes "i < length cnt" "i < length D"
  shows "fold (compareWith pop i) [0..<m] (cnt, D) =
    (cnt[i := cnt ! i + int (length (filter (\<lambda>j. j \<noteq> i \<and> \<not> dominates (pop ! i) (pop ! j) \<and>
                                          dominates (pop ! j) (pop ! i)) [0..<m]))],
     D[i := D ! i @ filter (\<lambda>j. j \<noteq> i \<and> dominates (pop ! i) (pop ! j)) [0..<m]])"
proof (induction m)
  case 0
  then show ?case by simp
next
  case (Suc m)
  show ?case
    by (simp add: Suc compareWith_step[OF assms] add.assoc)
qed

lemma fold_compareWith_rankUpdate:
  assumes "rankUpdate pop p" "i < length pop" "length cnt = length pop" "length D = length pop"
    "cnt ! i = 0" "D ! i = []"
  shows "fold (compareWith p i) [0..<length p] (cnt, D) =
           (cnt[i := dominatorCount pop i], D[i := dominatedList pop i])"
proof -
  have n: "length p = length pop" using assms(1) by (rule rankUpdate_length)
  have 1: "filter (\<lambda>j. j \<noteq> i \<and> \<not> dominates (p ! i) (p ! j) \<and> dominates (p ! j) (p ! i))
             [0..<length pop] =
           filter (\<lambda>j. j \<noteq> i \<and> \<not> dominates (pop ! i) (pop ! j) \<and> dominates (pop ! j) (pop ! i))
             [0..<length pop]"
    by (rule filter_cong) (simp_all add: rankUpdate_dominates[OF assms(1)] assms(2))
  have 2: "filter (\<lambda>j. j \<noteq> i \<and> dominates (p ! i) (p ! j)) [0..<length pop] =
           filter (\<lambda>j. j \<noteq> i \<and> dominates (pop ! i) (pop ! j)) [0..<length pop]"
    by (rule filter_cong) (simp_all add: rankUpdate_dominates[OF assms(1)] assms(2))
  show ?thesis
    using fold_compareWith[of i cnt D p "length pop"] assms
    by (simp add: n 1 2 dominatorCount_def dominatedList_def)
qed

lemma firstFrontStep_closed:
  assumes "rankUpdate pop p" "i < length pop" "length cnt = length pop" "length D = length pop"
    "cnt ! i = 0" "D ! i = []"
  shows "firstFrontStep i (p, fs, cnt, D) =
    (if dominatorCount pop i = 0
     then (p[i := (p ! i)\<lparr>rank := 1\<rparr>],
           (if fs = [] then [[]] else fs)[0 := (if fs = [] then [[]] else fs) ! 0 @ [i]],
           cnt[i := dominatorCount pop i], D[i := dominatedList pop i])
     else (p, fs, cnt[i := dominatorCount pop i], D[i := dominatedList pop i]))"
  using assms(2,3)
  by (simp add: firstFrontStep_def fold_compareWith_rankUpdate[OF assms] Let_def)

lemma firstFront_Suc_zero:
  "dominatorCount pop k = 0 \<Longrightarrow>
   firstFront pop (Suc k) =
     (if firstFront pop k = [] then [[]] else firstFront pop k)
       [0 := (if firstFront pop k = [] then [[]] else firstFront pop k) ! 0 @ [k]]"
  by (simp add: firstFront_def)

lemma firstFront_Suc_nonzero:
  "dominatorCount pop k \<noteq> 0 \<Longrightarrow> firstFront pop (Suc k) = firstFront pop k"
  by (simp add: firstFront_def)

lemma first_pass_prefix:
  assumes "k \<le> length pop"
  shows "\<exists>p cnt D.
     fold firstFrontStep [0..<k] (pop, [], replicate (length pop) 0, replicate (length pop) []) =
       (p, firstFront pop k, cnt, D) \<and>
     rankUpdate pop p \<and> length cnt = length pop \<and> length D = length pop \<and>
     (\<forall>i<length pop. rank (p ! i) =
        (if i < k \<and> dominatorCount pop i = 0 then 1 else rank (pop ! i))) \<and>
     (\<forall>i<length pop. cnt ! i = (if i < k then dominatorCount pop i else 0)) \<and>
     (\<forall>i<length pop. D ! i = (if i < k then dominatedList pop i else []))"
  using assms
proof (induction k)
  case 0
  then show ?case by (simp add: rankUpdate_refl firstFront_def)
next
  case (Suc k)
  then obtain p cnt D where st:
    "fold firstFrontStep [0..<k] (pop, [], replicate (length pop) 0, replicate (length pop) []) =
       (p, firstFront pop k, cnt, D)"
    and ru: "rankUpdate pop p" and lc: "length cnt = length pop" and ld: "length D = length pop"
    and rk: "\<forall>i<length pop. rank (p ! i) =
        (if i < k \<and> dominatorCount pop i = 0 then 1 else rank (pop ! i))"
    and cn: "\<forall>i<length pop. cnt ! i = (if i < k then dominatorCount pop i else 0)"
    and dd: "\<forall>i<length pop. D ! i = (if i < k then dominatedList pop i else [])"
    by auto
  have k: "k < length pop" using Suc.prems by simp
  have ck: "cnt ! k = 0" and dk: "D ! k = []" using cn dd k by simp_all
  have lp: "length p = length pop" using ru by (rule rankUpdate_length)
  let ?p' = "if dominatorCount pop k = 0 then p[k := (p ! k)\<lparr>rank := 1\<rparr>] else p"
  have step: "firstFrontStep k (p, firstFront pop k, cnt, D) =
     (?p', firstFront pop (Suc k), cnt[k := dominatorCount pop k], D[k := dominatedList pop k])"
  proof (cases "dominatorCount pop k = 0")
    case True
    show ?thesis
      using True
      by (simp add: firstFrontStep_closed[OF ru k lc ld ck dk] firstFront_Suc_zero)
  next
    case False
    show ?thesis
      using False
      by (simp add: firstFrontStep_closed[OF ru k lc ld ck dk] firstFront_Suc_nonzero)
  qed
  have ru': "rankUpdate pop ?p'"
    using rankUpdate_trans[OF ru rankUpdate_set_rank[of p k 1]] ru by simp
  have rk': "\<forall>i<length pop. rank (?p' ! i) =
        (if i < Suc k \<and> dominatorCount pop i = 0 then 1 else rank (pop ! i))"
    using rk k lp by (auto simp: nth_list_update_if less_Suc_eq)
  have cn': "\<forall>i<length pop. cnt[k := dominatorCount pop k] ! i =
        (if i < Suc k then dominatorCount pop i else 0)"
    using cn k lc by (auto simp: nth_list_update_if less_Suc_eq)
  have dd': "\<forall>i<length pop. D[k := dominatedList pop k] ! i =
        (if i < Suc k then dominatedList pop i else [])"
    using dd k ld by (auto simp: nth_list_update_if less_Suc_eq)
  have "fold firstFrontStep [0..<Suc k]
          (pop, [], replicate (length pop) 0, replicate (length pop) []) =
        (?p', firstFront pop (Suc k), cnt[k := dominatorCount pop k],
         D[k := dominatedList pop k])"
    by (simp add: st step)
  then show ?case using ru' rk' cn' dd' lc ld by auto
qed

lemma first_pass:
  "\<exists>p. fold firstFrontStep [0..<length pop]
          (pop, [], replicate (length pop) 0, replicate (length pop) []) =
       (p, firstFront pop (length pop), map (dominatorCount pop) [0..<length pop],
        map (dominatedList pop) [0..<length pop]) \<and>
     rankUpdate pop p \<and>
     (\<forall>i<length pop. rank (p ! i) = (if dominatorCount pop i = 0 then 1 else rank (pop ! i)))"
proof -
  obtain p cnt D where st:
    "fold firstFrontStep [0..<length pop]
        (pop, [], replicate (length pop) 0, replicate (length pop) []) =
       (p, firstFront pop (length pop), cnt, D)"
    and ru: "rankUpdate pop p" and lc: "length cnt = length pop" and ld: "length D = length pop"
    and rk: "\<forall>i<length pop. rank (p ! i) =
        (if i < length pop \<and> dominatorCount pop i = 0 then 1 else rank (pop ! i))"
    and cn: "\<forall>i<length pop. cnt ! i = (if i < length pop then dominatorCount pop i else 0)"
    and dd: "\<forall>i<length pop. D ! i = (if i < length pop then dominatedList pop i else [])"
    using first_pass_prefix[of "length pop" pop] by auto
  have "cnt = map (dominatorCount pop) [0..<length pop]"
    by (rule nth_equalityI) (simp_all add: lc cn)
  moreover have "D = map (dominatedList pop) [0..<length pop]"
    by (rule nth_equalityI) (simp_all add: ld dd)
  ultimately show ?thesis using st ru rk by auto
qed

subsection \<open>The innermost loop of the second pass\<close>

lemma length_decremented: "length (decremented c js) = length c"
  by (induction js arbitrary: c) simp_all

lemma decremented_nth:
  "j < length c \<Longrightarrow> decremented c js ! j = c ! j - int (count_list js j)"
proof (induction js arbitrary: c)
  case Nil
  then show ?case by simp
next
  case (Cons a js)
  show ?case
    using Cons.IH[of "if a < length c then c[a := c ! a - 1] else c"] Cons.prems
    by (auto simp: nth_list_update_if)
qed

lemma set_reachedZero:
  "set (reachedZero c js) = {j. j < length c \<and> 1 \<le> c ! j \<and> c ! j \<le> int (count_list js j)}"
proof (induction js arbitrary: c)
  case Nil
  then show ?case by auto
next
  case (Cons a js)
  show ?case
  proof (cases "a < length c")
    case False
    then show ?thesis using Cons.IH[of c] by auto
  next
    case True
    have ih: "set (reachedZero (c[a := c ! a - 1]) js) =
       {j. j < length c \<and> 1 \<le> c[a := c ! a - 1] ! j \<and>
           c[a := c ! a - 1] ! j \<le> int (count_list js j)}"
      using Cons.IH[of "c[a := c ! a - 1]"] by simp
    show ?thesis
      using True by (auto simp: ih nth_list_update_if split: if_splits)
  qed
qed

lemma distinct_reachedZero: "distinct (reachedZero c js)"
proof (induction js arbitrary: c)
  case Nil
  then show ?case by simp
next
  case (Cons a js)
  show ?case
  proof (cases "a < length c")
    case False
    then show ?thesis using Cons.IH[of c] by simp
  next
    case True
    have "a \<notin> set (reachedZero (c[a := c ! a - 1]) js)" if "c ! a - 1 = 0"
      using that True by (simp add: set_reachedZero)
    then show ?thesis using True Cons.IH[of "c[a := c ! a - 1]"] by simp
  qed
qed

lemma fold_relax:
  assumes "length p = length c"
  shows "fold (relax k) js (p, c, nf) =
     (fold (\<lambda>j q. q[j := (q ! j)\<lparr>rank := int k + 2\<rparr>]) (reachedZero c js) p,
      decremented c js, nf @ reachedZero c js)"
  using assms
proof (induction js arbitrary: p c nf)
  case Nil
  then show ?case by simp
next
  case (Cons a js)
  show ?case
  proof (cases "a < length c")
    case False
    then show ?thesis using Cons.IH[OF Cons.prems, of nf] by (simp add: relax_def)
  next
    case True
    show ?thesis
    proof (cases "c ! a - 1 = 0")
      case z: True
      have "relax k a (p, c, nf) =
            (p[a := (p ! a)\<lparr>rank := int k + 2\<rparr>], c[a := c ! a - 1], nf @ [a])"
        using True z by (simp add: relax_def Let_def)
      then show ?thesis
        using Cons.IH[of "p[a := (p ! a)\<lparr>rank := int k + 2\<rparr>]" "c[a := c ! a - 1]" "nf @ [a]"]
          Cons.prems True z by simp
    next
      case nz: False
      have "relax k a (p, c, nf) = (p, c[a := c ! a - 1], nf)"
        using True nz by (simp add: relax_def Let_def)
      then show ?thesis
        using Cons.IH[of p "c[a := c ! a - 1]" nf] Cons.prems True nz by simp
    qed
  qed
qed

lemma relaxFront_concat:
  "relaxFront D k front s = fold (relax k) (concat (map ((!) D) front)) s"
  by (induction front arbitrary: s) (simp_all add: relaxFront_def)

lemma fold_set_rank:
  "rankUpdate p (fold (\<lambda>j q. q[j := (q ! j)\<lparr>rank := r\<rparr>]) xs p) \<and>
   (\<forall>i<length p. rank (fold (\<lambda>j q. q[j := (q ! j)\<lparr>rank := r\<rparr>]) xs p ! i) =
      (if i \<in> set xs then r else rank (p ! i)))"
proof (induction xs arbitrary: p)
  case Nil
  then show ?case by (simp add: rankUpdate_refl)
next
  case (Cons a xs)
  let ?q = "p[a := (p ! a)\<lparr>rank := r\<rparr>]"
  have u: "rankUpdate p ?q" by (rule rankUpdate_set_rank)
  have ih: "rankUpdate ?q (fold (\<lambda>j q. q[j := (q ! j)\<lparr>rank := r\<rparr>]) xs ?q)"
    "\<forall>i<length ?q. rank (fold (\<lambda>j q. q[j := (q ! j)\<lparr>rank := r\<rparr>]) xs ?q ! i) =
      (if i \<in> set xs then r else rank (?q ! i))"
    using Cons[of ?q] by simp_all
  show ?case
    using rankUpdate_trans[OF u ih(1)] ih(2) by (auto simp: nth_list_update_if)
qed

lemma relaxFront_result:
  assumes "length p = length c"
  shows "\<exists>p'. relaxFront D k front (p, c, []) =
           (p', decremented c (concat (map ((!) D) front)),
            reachedZero c (concat (map ((!) D) front))) \<and>
         rankUpdate p p' \<and>
         (\<forall>i<length p. rank (p' ! i) =
            (if i \<in> set (reachedZero c (concat (map ((!) D) front))) then int k + 2
             else rank (p ! i)))"
  using fold_relax[OF assms, of k "concat (map ((!) D) front)" "[]"]
    fold_set_rank[of p "int k + 2" "reachedZero c (concat (map ((!) D) front))"]
  by (simp add: relaxFront_concat)

subsection \<open>Dominators\<close>

lemma finite_dominators: "finite (dominators pop j)"
  by (simp add: dominators_def)

lemma dominators_less: "i \<in> dominators pop j \<Longrightarrow> i < length pop"
  by (simp add: dominators_def)

lemma dominators_irrefl: "j \<notin> dominators pop j"
  by (simp add: dominators_def dominates_irrefl)

lemma dominators_psubset:
  assumes objs: "\<forall>ind \<in> set pop. length (objectives ind) = m"
    and "i \<in> dominators pop j" "j < length pop"
  shows "dominators pop i \<subset> dominators pop j"
proof -
  have i: "i < length pop" "dominates (pop ! i) (pop ! j)"
    using assms(2) by (simp_all add: dominators_def)
  have len: "\<And>x. x < length pop \<Longrightarrow> length (objectives (pop ! x)) = m"
    using objs by simp
  have "dominators pop i \<subseteq> dominators pop j"
  proof
    fix x assume "x \<in> dominators pop i"
    then have x: "x < length pop" "dominates (pop ! x) (pop ! i)"
      by (simp_all add: dominators_def)
    have "dominates (pop ! x) (pop ! j)"
      using dominates_trans[OF len[OF x(1)] len[OF i(1)] len[OF assms(3)] x(2) i(2)] .
    then show "x \<in> dominators pop j" using x(1) by (simp add: dominators_def)
  qed
  moreover have "i \<in> dominators pop j" "i \<notin> dominators pop i"
    using assms(2) dominators_irrefl by auto
  ultimately show ?thesis by blast
qed

lemma dominatorCount_card:
  assumes objs: "\<forall>ind \<in> set pop. length (objectives ind) = m" and j: "j < length pop"
  shows "dominatorCount pop j = int (card (dominators pop j))"
proof -
  have len: "\<And>x. x < length pop \<Longrightarrow> length (objectives (pop ! x)) = m"
    using objs by simp
  have "{i. i \<noteq> j \<and> \<not> dominates (pop ! j) (pop ! i) \<and> dominates (pop ! i) (pop ! j)} \<inter>
          set [0..<length pop] = dominators pop j" (is "?A = ?B")
  proof (rule set_eqI)
    fix x
    show "x \<in> ?A \<longleftrightarrow> x \<in> ?B"
    proof (cases "x < length pop \<and> dominates (pop ! x) (pop ! j)")
      case True
      then have "\<not> dominates (pop ! j) (pop ! x)"
        using dominates_asym[OF len[of x] len[OF j]] by blast
      moreover have "x \<noteq> j" using True dominates_irrefl by blast
      ultimately show ?thesis using True by (simp add: dominators_def)
    next
      case False
      then show ?thesis by (auto simp: dominators_def)
    qed
  qed
  then show ?thesis
    using distinct_length_filter[of "[0..<length pop]"
        "\<lambda>i. i \<noteq> j \<and> \<not> dominates (pop ! j) (pop ! i) \<and> dominates (pop ! i) (pop ! j)"]
    by (simp add: dominatorCount_def)
qed

lemma set_dominatedList:
  "set (dominatedList pop i) = {j. j < length pop \<and> dominates (pop ! i) (pop ! j)}"
  using dominates_irrefl by (auto simp: dominatedList_def)

lemma distinct_dominatedList: "distinct (dominatedList pop i)"
  by (simp add: dominatedList_def)

lemma count_list_distinct: "distinct xs \<Longrightarrow> count_list xs x = (if x \<in> set xs then 1 else 0)"
  by (induction xs) auto

lemma count_dominatedLists:
  assumes "distinct front" "set front \<subseteq> {..<length pop}" "j < length pop"
  shows "count_list (concat (map ((!) (map (dominatedList pop) [0..<length pop])) front)) j =
         card (dominators pop j \<inter> set front)"
  using assms(1,2)
proof (induction front)
  case Nil
  then show ?case by simp
next
  case (Cons a front)
  have a: "a < length pop" "a \<notin> set front" using Cons.prems by auto
  have ih: "count_list (concat (map ((!) (map (dominatedList pop) [0..<length pop])) front)) j =
         card (dominators pop j \<inter> set front)"
    using Cons by simp
  have c: "count_list (dominatedList pop a) j = (if a \<in> dominators pop j then 1 else 0)"
    using assms(3) a(1)
    by (simp add: count_list_distinct distinct_dominatedList set_dominatedList dominators_def)
  have fin: "finite (dominators pop j \<inter> set front)" by simp
  have "card (dominators pop j \<inter> set (a # front)) =
        (if a \<in> dominators pop j then 1 else 0) + card (dominators pop j \<inter> set front)"
  proof (cases "a \<in> dominators pop j")
    case True
    then have "dominators pop j \<inter> set (a # front) = insert a (dominators pop j \<inter> set front)"
      by auto
    then show ?thesis using True a(2) fin by simp
  next
    case False
    then have "dominators pop j \<inter> set (a # front) = dominators pop j \<inter> set front" by auto
    then show ?thesis using False by simp
  qed
  then show ?case using ih c a(1) by simp
qed

subsection \<open>The invariant holds after the first pass\<close>

lemma concat_firstFront:
  "concat (firstFront pop k) = filter (\<lambda>i. dominatorCount pop i = 0) [0..<k]"
  by (simp add: firstFront_def)

lemma firstFront_shape:
  "length (firstFront pop k) \<le> Suc 0 \<and> (\<forall>front \<in> set (firstFront pop k). front \<noteq> [])"
  by (simp add: firstFront_def)

lemma frontsInvariant_initial:
  assumes objs: "\<forall>ind \<in> set pop. length (objectives ind) = m"
    and ru: "rankUpdate pop p"
    and rk: "\<forall>i<length pop. rank (p ! i) = (if dominatorCount pop i = 0 then 1 else rank (pop ! i))"
  shows "frontsInvariant pop 0
           (p, firstFront pop (length pop), map (dominatorCount pop) [0..<length pop])"
proof -
  have r: "\<forall>r<length (firstFront pop (length pop)).
             \<forall>j \<in> set (firstFront pop (length pop) ! r). rank (p ! j) = int r + 1"
    using rk by (auto simp: firstFront_def)
  have d: "distinct (concat (firstFront pop (length pop)))"
    by (simp add: concat_firstFront)
  have sub: "set (concat (firstFront pop (length pop))) \<subseteq> {..<length pop}"
    by (auto simp: concat_firstFront)
  have c: "\<forall>j<length pop. map (dominatorCount pop) [0..<length pop] ! j =
        int (card (dominators pop j - set (concat (take 0 (firstFront pop (length pop))))))"
    by (simp add: dominatorCount_card[OF objs])
  have z: "\<forall>j<length pop. j \<in> set (concat (firstFront pop (length pop))) \<longleftrightarrow>
             map (dominatorCount pop) [0..<length pop] ! j = 0"
    by (simp add: concat_firstFront)
  have t: "take 1 (firstFront pop (length pop)) = firstFront pop (length pop)"
    by (simp add: firstFront_def)
  have u: "set (concat (take 1 (firstFront pop (length pop)))) =
           {j. j < length pop \<and> dominators pop j = {}}"
    unfolding t concat_firstFront
    by (auto simp: dominatorCount_card[OF objs] finite_dominators)
  show ?thesis
    unfolding frontsInvariant_def prod.case
    using ru r firstFront_shape[of pop "length pop"] d sub c z u
    by (simp add: finite_dominators)
qed

subsection \<open>The invariant is kept by one round of the loop\<close>

lemma frontsInvariant_step:
  assumes objs: "\<forall>ind \<in> set pop. length (objectives ind) = m"
    and inv: "frontsInvariant pop k (p, fs, c)"
    and k: "k < length fs"
    and res: "relaxFront (map (dominatedList pop) [0..<length pop]) k (fs ! k) (p, c, []) =
                (p', c', nf)"
  shows "frontsInvariant pop (Suc k) (p', if nf \<noteq> [] then fs @ [nf] else fs, c')"
proof -
  let ?n = "length pop"
  let ?D = "map (dominatedList pop) [0..<?n]"
  let ?F = "fs ! k"
  let ?P = "set (concat (take k fs))"
  let ?js = "concat (map ((!) ?D) ?F)"
  let ?fs' = "if nf \<noteq> [] then fs @ [nf] else fs"
  have ru: "rankUpdate pop p" and lc: "length c = ?n" and lfs: "length fs = Suc k"
    and ne: "\<forall>front \<in> set fs. front \<noteq> []"
    and dist: "distinct (concat fs)" and sub: "set (concat fs) \<subseteq> {..<?n}"
    and cnt: "\<forall>j<?n. c ! j = int (card (dominators pop j - ?P))"
    and zero: "\<forall>j<?n. j \<in> set (concat fs) \<longleftrightarrow> c ! j = 0"
    and rks: "\<forall>r<length fs. \<forall>j \<in> set (fs ! r). rank (p ! j) = int r + 1"
    and und: "set (concat (take 1 fs)) = {j. j < ?n \<and> dominators pop j = {}}"
    using inv k unfolding frontsInvariant_def prod.case by auto
  have lp: "length p = ?n" using ru by (rule rankUpdate_length)
  have fs_split: "fs = take k fs @ [?F]"
    using take_Suc_conv_app_nth[OF k] lfs by simp
  have cc: "concat fs = concat (take k fs) @ ?F"
    using arg_cong[OF fs_split, of concat] by simp
  have setc: "set (concat fs) = ?P \<union> set ?F" using arg_cong[OF cc, of set] by simp
  have dF: "distinct ?F" and disj: "?P \<inter> set ?F = {}"
    using dist unfolding cc by auto
  have subF: "set ?F \<subseteq> {..<?n}" using sub setc by auto
  obtain q where q: "relaxFront ?D k ?F (p, c, []) = (q, decremented c ?js, reachedZero c ?js)"
    and ruq: "rankUpdate p q"
    and rkq: "\<forall>i<length p. rank (q ! i) =
               (if i \<in> set (reachedZero c ?js) then int k + 2 else rank (p ! i))"
    using relaxFront_result[of p c ?D k ?F] lp lc by auto
  have p': "p' = q" and c': "c' = decremented c ?js" and nf: "nf = reachedZero c ?js"
    using res q by simp_all
  have cF: "\<And>j. j < ?n \<Longrightarrow> count_list ?js j = card (dominators pop j \<inter> set ?F)"
    using count_dominatedLists[OF dF subF] by simp
  have c'nth: "\<And>j. j < ?n \<Longrightarrow> c' ! j = c ! j - int (card (dominators pop j \<inter> set ?F))"
    using decremented_nth[of _ c ?js] lc cF by (simp add: c')
  have le: "\<And>j. j < ?n \<Longrightarrow> int (card (dominators pop j \<inter> set ?F)) \<le> c ! j"
  proof -
    fix j assume j: "j < ?n"
    have "dominators pop j \<inter> set ?F \<subseteq> dominators pop j - ?P" using disj by auto
    then have "card (dominators pop j \<inter> set ?F) \<le> card (dominators pop j - ?P)"
      by (intro card_mono) (simp_all add: finite_dominators)
    then show "int (card (dominators pop j \<inter> set ?F)) \<le> c ! j" using cnt j by simp
  qed
  have cnt': "\<And>j. j < ?n \<Longrightarrow> c' ! j = int (card (dominators pop j - set (concat fs)))"
  proof -
    fix j assume j: "j < ?n"
    have s: "dominators pop j \<inter> set ?F \<subseteq> dominators pop j - ?P" using disj by auto
    have "dominators pop j - set (concat fs) =
          (dominators pop j - ?P) - (dominators pop j \<inter> set ?F)"
      unfolding setc by auto
    then have "card (dominators pop j - set (concat fs)) =
          card (dominators pop j - ?P) - card (dominators pop j \<inter> set ?F)"
      using card_Diff_subset[OF _ s] by (simp add: finite_dominators)
    moreover have "card (dominators pop j \<inter> set ?F) \<le> card (dominators pop j - ?P)"
      using s by (intro card_mono) (simp_all add: finite_dominators)
    ultimately show "c' ! j = int (card (dominators pop j - set (concat fs)))"
      using c'nth[OF j] cnt j by simp
  qed
  have setnf: "set nf = {j. j < ?n \<and> 1 \<le> c ! j \<and> c' ! j = 0}"
  proof (rule set_eqI)
    fix j
    show "j \<in> set nf \<longleftrightarrow> j \<in> {j. j < ?n \<and> 1 \<le> c ! j \<and> c' ! j = 0}"
    proof (cases "j < ?n")
      case True
      then show ?thesis
        using le[OF True] c'nth[OF True] cF[OF True] lc
        by (auto simp: nf set_reachedZero)
    next
      case False
      then show ?thesis using lc by (simp add: nf set_reachedZero)
    qed
  qed
  have dnf: "distinct nf" by (simp add: nf distinct_reachedZero)
  have nonneg: "\<And>j. j < ?n \<Longrightarrow> 0 \<le> c ! j" using cnt by simp
  have take': "take (Suc k) ?fs' = fs" using lfs by simp
  have setc': "set (concat ?fs') = set (concat fs) \<union> set nf" by auto
  have i1: "rankUpdate pop p'" using rankUpdate_trans[OF ru ruq] p' by simp
  have i2: "length c' = ?n" by (simp add: c' length_decremented lc)
  have i3: "Suc k \<le> length ?fs' \<and> length ?fs' \<le> Suc (Suc k)" using lfs by simp
  have i4: "\<forall>front \<in> set ?fs'. front \<noteq> []" using ne by simp
  have disj2: "set (concat fs) \<inter> set nf = {}"
  proof -
    have "\<And>j. j \<in> set nf \<Longrightarrow> j \<notin> set (concat fs)"
    proof -
      fix j assume "j \<in> set nf"
      then have "j < ?n" "1 \<le> c ! j" using setnf by auto
      then show "j \<notin> set (concat fs)" using zero by auto
    qed
    then show ?thesis by auto
  qed
  have i5: "distinct (concat ?fs')" using dist dnf disj2 by simp
  have i6: "set (concat ?fs') \<subseteq> {..<?n}" using sub setnf by auto
  have i7: "\<forall>j<?n. c' ! j = int (card (dominators pop j - set (concat (take (Suc k) ?fs'))))"
    unfolding take' using cnt' by simp
  have i8: "\<forall>j<?n. j \<in> set (concat ?fs') \<longleftrightarrow> c' ! j = 0"
  proof (intro allI impI)
    fix j assume j: "j < ?n"
    show "j \<in> set (concat ?fs') \<longleftrightarrow> c' ! j = 0"
    proof
      assume "j \<in> set (concat ?fs')"
      then consider "j \<in> set (concat fs)" | "j \<in> set nf" using setc' by auto
      then show "c' ! j = 0"
      proof cases
        case 1
        then have "c ! j = 0" using zero j by simp
        then show ?thesis using le[OF j] c'nth[OF j] by simp
      next
        case 2
        then show ?thesis using setnf by simp
      qed
    next
      assume z: "c' ! j = 0"
      show "j \<in> set (concat ?fs')"
      proof (cases "c ! j = 0")
        case True
        then show ?thesis using zero j setc' by simp
      next
        case False
        then have "1 \<le> c ! j" using nonneg[OF j] by simp
        then have "j \<in> set nf" using setnf j z by simp
        then show ?thesis using setc' by simp
      qed
    qed
  qed
  have i9: "\<forall>r<length ?fs'. \<forall>j \<in> set (?fs' ! r). rank (p' ! j) = int r + 1"
  proof (intro allI impI ballI)
    fix r j assume r: "r < length ?fs'" and jr: "j \<in> set (?fs' ! r)"
    show "rank (p' ! j) = int r + 1"
    proof (cases "r < length fs")
      case True
      then have jr': "j \<in> set (fs ! r)" using jr by (cases "nf = []") (simp_all add: nth_append)
      then have jc: "j \<in> set (concat fs)" using True by auto
      then have jn: "j < ?n" using sub by auto
      have "j \<notin> set nf" using jc disj2 by auto
      then have "rank (p' ! j) = rank (p ! j)" using rkq jn lp by (simp add: p' nf)
      then show ?thesis using rks True jr' by simp
    next
      case False
      then have rr: "r = Suc k" "nf \<noteq> []" using r lfs by (auto split: if_splits)
      then have "j \<in> set nf" using jr lfs by (simp add: nth_append)
      then have "j < ?n" "j \<in> set (reachedZero c ?js)" using setnf by (simp_all add: nf)
      then have "rank (p' ! j) = int k + 2" using rkq lp by (simp add: p')
      then show ?thesis using rr by simp
    qed
  qed
  have "take 1 ?fs' = take 1 fs" using lfs by simp
  then have i10: "set (concat (take 1 ?fs')) = {j. j < ?n \<and> dominators pop j = {}}"
    using und by (simp only:)
  show ?thesis
    unfolding frontsInvariant_def prod.case
    using i1 i2 i3 i4 i5 i6 i7 i8 i9 i10 by blast
qed

subsection \<open>The second pass as a whole\<close>

declare buildFronts.simps [simp del]

lemma buildFronts_invariant:
  assumes objs: "\<forall>ind \<in> set pop. length (objectives ind) = m"
    and D: "D = map (dominatedList pop) [0..<length pop]"
    and inv: "frontsInvariant pop k st"
  shows "\<exists>p' fs' c'. buildFronts D k st = (p', fs', c') \<and>
           frontsInvariant pop (length fs') (p', fs', c')"
  using D inv
proof (induction D k st rule: buildFronts.induct)
  case (1 D k p fs c)
  have ne: "\<forall>front \<in> set fs. front \<noteq> []" and kle: "k \<le> length fs"
    using "1.prems"(2) unfolding frontsInvariant_def prod.case by auto
  show ?case
  proof (cases "k < length fs")
    case True
    then have cond: "k < length fs \<and> fs ! k \<noteq> []" using ne by simp
    obtain p' c' nf where res: "relaxFront D k (fs ! k) (p, c, []) = (p', c', nf)"
      by (cases "relaxFront D k (fs ! k) (p, c, [])") auto
    have step: "frontsInvariant pop (Suc k) (p', if nf \<noteq> [] then fs @ [nf] else fs, c')"
      using frontsInvariant_step[OF objs "1.prems"(2) True] res "1.prems"(1) by simp
    have "buildFronts D k (p, fs, c) =
          buildFronts D (k + 1) (p', if nf \<noteq> [] then fs @ [nf] else fs, c')"
      using cond res by (subst buildFronts.simps) simp
    moreover have "\<exists>p'' fs' c''.
        buildFronts D (k + 1) (p', if nf \<noteq> [] then fs @ [nf] else fs, c') = (p'', fs', c'') \<and>
        frontsInvariant pop (length fs') (p'', fs', c'')"
      using "1.IH"[OF cond res[symmetric] refl "1.prems"(1)] step by simp
    ultimately show ?thesis by simp
  next
    case False
    then have "k = length fs" using kle by simp
    moreover have "buildFronts D k (p, fs, c) = (p, fs, c)"
      using False by (subst buildFronts.simps) simp
    ultimately show ?thesis using "1.prems"(2) by simp
  qed
qed

lemma frontsInvariant_cover:
  assumes objs: "\<forall>ind \<in> set pop. length (objectives ind) = m"
    and inv: "frontsInvariant pop (length fs) (p, fs, c)"
    and j: "j < length pop"
  shows "j \<in> set (concat fs)"
  using j
proof (induction "card (dominators pop j)" arbitrary: j rule: less_induct)
  case less
  have cnt: "c ! j = int (card (dominators pop j - set (concat fs)))"
    and zero: "j \<in> set (concat fs) \<longleftrightarrow> c ! j = 0"
    using inv less.prems unfolding frontsInvariant_def prod.case by auto
  have "dominators pop j - set (concat fs) = {}"
  proof (rule ccontr)
    assume "dominators pop j - set (concat fs) \<noteq> {}"
    then obtain i where i: "i \<in> dominators pop j" "i \<notin> set (concat fs)" by auto
    have "card (dominators pop i) < card (dominators pop j)"
      using dominators_psubset[OF objs i(1) less.prems] finite_dominators
      by (simp add: psubset_card_mono)
    then have "i \<in> set (concat fs)"
      using less.hyps[of i] dominators_less[OF i(1)] by simp
    then show False using i(2) by simp
  qed
  then have "card (dominators pop j - set (concat fs)) = 0" by (simp only: card.empty)
  then have "c ! j = 0" using cnt by (simp only: of_nat_0)
  then show ?case using zero by (simp only: simp_thms)
qed

lemma rankPopulation_invariant:
  assumes objs: "\<forall>ind \<in> set pop. length (objectives ind) = m"
  shows "\<exists>c. frontsInvariant pop (length (snd (rankPopulation pop)))
               (fst (rankPopulation pop), snd (rankPopulation pop), c)"
proof -
  obtain p where fp: "fold firstFrontStep [0..<length pop]
          (pop, [], replicate (length pop) 0, replicate (length pop) []) =
       (p, firstFront pop (length pop), map (dominatorCount pop) [0..<length pop],
        map (dominatedList pop) [0..<length pop])"
    and ru: "rankUpdate pop p"
    and rk: "\<forall>i<length pop. rank (p ! i) =
               (if dominatorCount pop i = 0 then 1 else rank (pop ! i))"
    using first_pass[of pop] by auto
  have inv0: "frontsInvariant pop 0
           (p, firstFront pop (length pop), map (dominatorCount pop) [0..<length pop])"
    using frontsInvariant_initial[OF objs ru rk] .
  obtain p' fs' c' where bf:
    "buildFronts (map (dominatedList pop) [0..<length pop]) 0
       (p, firstFront pop (length pop), map (dominatorCount pop) [0..<length pop]) =
     (p', fs', c')" and inv: "frontsInvariant pop (length fs') (p', fs', c')"
    using buildFronts_invariant[OF objs refl inv0] by auto
  have "rankPopulation pop = (p', fs')"
    by (simp add: rankPopulation_def fp bf)
  then show ?thesis using inv by auto
qed

subsection \<open>What the ranking guarantees\<close>

lemma distinct_concat_nth:
  assumes "distinct (concat xss)" "r < length xss" "r' < length xss"
    "x \<in> set (xss ! r)" "x \<in> set (xss ! r')"
  shows "r = r'"
  using assms
proof (induction xss arbitrary: r r')
  case Nil
  then show ?case by simp
next
  case (Cons xs xss)
  have d: "distinct (concat xss)" and dj: "set xs \<inter> set (concat xss) = {}"
    using Cons.prems(1) by auto
  show ?case
  proof (cases r)
    case 0
    show ?thesis
    proof (cases r')
      case r0: 0
      then show ?thesis using 0 by simp
    next
      case (Suc s')
      then have "x \<in> set (concat xss)" using Cons.prems(3,5) by auto
      then show ?thesis using dj 0 Cons.prems(4) by auto
    qed
  next
    case (Suc s)
    show ?thesis
    proof (cases r')
      case 0
      have "x \<in> set (concat xss)" using Suc Cons.prems(2,4) by auto
      then show ?thesis using dj 0 Cons.prems(5) by auto
    next
      case s': (Suc s')
      then show ?thesis using Cons.IH[OF d, of s s'] Suc Cons.prems by simp
    qed
  qed
qed

lemma rankPopulation_partition:
  assumes objs: "\<forall>ind \<in> set pop. length (objectives ind) = m"
  shows "rankUpdate pop (fst (rankPopulation pop))"
    and "\<forall>front \<in> set (snd (rankPopulation pop)). front \<noteq> [] \<and> set front \<subseteq> {..<length pop}"
    and "distinct (concat (snd (rankPopulation pop)))"
    and "set (concat (snd (rankPopulation pop))) = {..<length pop}"
    and "\<forall>r<length (snd (rankPopulation pop)). \<forall>j \<in> set (snd (rankPopulation pop) ! r).
           rank (fst (rankPopulation pop) ! j) = int r + 1"
    and "set (concat (take 1 (snd (rankPopulation pop)))) =
           {j. j < length pop \<and> dominators pop j = {}}"
proof -
  let ?p = "fst (rankPopulation pop)" and ?fs = "snd (rankPopulation pop)"
  obtain c where inv: "frontsInvariant pop (length ?fs) (?p, ?fs, c)"
    using rankPopulation_invariant[OF objs] by auto
  show "rankUpdate pop ?p" using inv unfolding frontsInvariant_def prod.case by simp
  have sub: "set (concat ?fs) \<subseteq> {..<length pop}"
    using inv unfolding frontsInvariant_def prod.case by simp
  have ne: "\<forall>front \<in> set ?fs. front \<noteq> []"
    using inv unfolding frontsInvariant_def prod.case by simp
  show "\<forall>front \<in> set ?fs. front \<noteq> [] \<and> set front \<subseteq> {..<length pop}"
    using sub ne by auto
  show "distinct (concat ?fs)" using inv unfolding frontsInvariant_def prod.case by simp
  show "set (concat ?fs) = {..<length pop}"
    using sub frontsInvariant_cover[OF objs inv] by auto
  show "\<forall>r<length ?fs. \<forall>j \<in> set (?fs ! r). rank (?p ! j) = int r + 1"
    using inv unfolding frontsInvariant_def prod.case by simp
  show "set (concat (take 1 ?fs)) = {j. j < length pop \<and> dominators pop j = {}}"
    using inv unfolding frontsInvariant_def prod.case by simp
qed

lemma nonDominatedSorting_alt:
  "nonDominatedSorting pop =
     fold crowdingFront (snd (rankPopulation pop)) (fst (rankPopulation pop))"
  by (simp add: nonDominatedSorting_def case_prod_beta)

lemma rankCombined_alt:
  "rankCombined pop =
     (fold crowdingFrontChecked (snd (rankPopulation pop)) (fst (rankPopulation pop)),
      snd (rankPopulation pop))"
  by (simp add: rankCombined_def case_prod_beta)

lemma nonDominatedSorting_crowdingUpdate:
  "crowdingUpdate (fst (rankPopulation pop)) (nonDominatedSorting pop)"
  unfolding nonDominatedSorting_alt by (rule fold_crowdingFront_update)

lemma rankCombined_eq:
  assumes objs: "\<forall>ind \<in> set pop. length (objectives ind) = m"
  shows "rankCombined pop = (nonDominatedSorting pop, snd (rankPopulation pop))"
proof -
  have "\<forall>front \<in> set (snd (rankPopulation pop)).
          set front \<subseteq> {..<length (fst (rankPopulation pop))}"
    using rankPopulation_partition(1,2)[OF objs] by (simp add: rankUpdate_length)
  then show ?thesis
    using fold_crowdingFrontChecked_eq[of "snd (rankPopulation pop)" "fst (rankPopulation pop)"]
    by (simp add: rankCombined_alt nonDominatedSorting_alt)
qed

lemma nonDominatedSorting_fields:
  assumes objs: "\<forall>ind \<in> set pop. length (objectives ind) = m"
  shows "length (nonDominatedSorting pop) = length pop"
    and "\<And>i. i < length pop \<Longrightarrow>
          objectives (nonDominatedSorting pop ! i) = objectives (pop ! i) \<and>
          params (nonDominatedSorting pop ! i) = params (pop ! i) \<and>
          rank (nonDominatedSorting pop ! i) = rank (fst (rankPopulation pop) ! i)"
proof -
  have ru: "rankUpdate pop (fst (rankPopulation pop))"
    using rankPopulation_partition(1)[OF objs] .
  have cu: "crowdingUpdate (fst (rankPopulation pop)) (nonDominatedSorting pop)"
    by (rule nonDominatedSorting_crowdingUpdate)
  show "length (nonDominatedSorting pop) = length pop"
    using ru cu by (simp add: rankUpdate_def crowdingUpdate_def)
  show "\<And>i. i < length pop \<Longrightarrow>
          objectives (nonDominatedSorting pop ! i) = objectives (pop ! i) \<and>
          params (nonDominatedSorting pop ! i) = params (pop ! i) \<and>
          rank (nonDominatedSorting pop ! i) = rank (fst (rankPopulation pop) ! i)"
    using ru cu by (simp add: rankUpdate_def crowdingUpdate_def)
qed

text \<open>
  C3. For a population in which every individual has a three-element objective vector, the
  fronts computed by the non-dominated sorting partition the indices of the population:
  every index lies in exactly one front, no front is empty, and the individuals of front
  \<open>r\<close> (counted from 0) have rank \<open>r + 1\<close>; so every individual has a rank between 1 and the
  number of fronts and every such rank occurs. No individual of rank 1 dominates another
  individual of rank 1. The Rank step of a generation computes the same result.
\<close>

theorem nonDominatedSorting_ranks_partition:
  assumes "\<forall>ind \<in> set pop. length (objectives ind) = 3"
  shows "length (nonDominatedSorting pop) = length pop \<and>
    (\<forall>i<length pop. \<exists>!r. r < length (snd (rankPopulation pop)) \<and>
                              i \<in> set (snd (rankPopulation pop) ! r)) \<and>
    (\<forall>r<length (snd (rankPopulation pop)).
        snd (rankPopulation pop) ! r \<noteq> [] \<and>
        (\<forall>i \<in> set (snd (rankPopulation pop) ! r).
            i < length pop \<and> rank (nonDominatedSorting pop ! i) = int r + 1)) \<and>
    (\<forall>i<length pop. 1 \<le> rank (nonDominatedSorting pop ! i) \<and>
        rank (nonDominatedSorting pop ! i) \<le> int (length (snd (rankPopulation pop)))) \<and>
    (\<forall>r. 1 \<le> r \<and> r \<le> int (length (snd (rankPopulation pop))) \<longrightarrow>
        (\<exists>i<length pop. rank (nonDominatedSorting pop ! i) = r)) \<and>
    (\<forall>i<length pop. \<forall>j<length pop.
        rank (nonDominatedSorting pop ! i) = 1 \<longrightarrow> rank (nonDominatedSorting pop ! j) = 1 \<longrightarrow>
        \<not> dominates (nonDominatedSorting pop ! i) (nonDominatedSorting pop ! j)) \<and>
    rankCombined pop = (nonDominatedSorting pop, snd (rankPopulation pop))"
proof -
  let ?fs = "snd (rankPopulation pop)" and ?p = "fst (rankPopulation pop)"
  let ?s = "nonDominatedSorting pop" and ?n = "length pop"
  note part = rankPopulation_partition[OF assms]
  note flds = nonDominatedSorting_fields[OF assms]
  have in_front: "\<And>i. i < ?n \<Longrightarrow> \<exists>r<length ?fs. i \<in> set (?fs ! r)"
  proof -
    fix i assume "i < ?n"
    then have "i \<in> set (concat ?fs)" using part(4) by simp
    then obtain f where "f \<in> set ?fs" "i \<in> set f" by auto
    then show "\<exists>r<length ?fs. i \<in> set (?fs ! r)" by (auto simp: in_set_conv_nth)
  qed
  have front_lt: "\<And>r i. r < length ?fs \<Longrightarrow> i \<in> set (?fs ! r) \<Longrightarrow> i < ?n"
    using part(2) by (meson lessThan_iff nth_mem subsetD)
  have rk: "\<And>r i. r < length ?fs \<Longrightarrow> i \<in> set (?fs ! r) \<Longrightarrow> rank (?s ! i) = int r + 1"
    using part(5) flds(2) front_lt by simp
  have c1: "length ?s = ?n" by (rule flds(1))
  have c2: "\<forall>i<?n. \<exists>!r. r < length ?fs \<and> i \<in> set (?fs ! r)"
  proof (intro allI impI)
    fix i assume i: "i < ?n"
    obtain r where r: "r < length ?fs" "i \<in> set (?fs ! r)" using in_front[OF i] by auto
    show "\<exists>!r. r < length ?fs \<and> i \<in> set (?fs ! r)"
    proof (rule ex1I[of _ r])
      show "r < length ?fs \<and> i \<in> set (?fs ! r)" using r by simp
    next
      fix r' assume "r' < length ?fs \<and> i \<in> set (?fs ! r')"
      then show "r' = r" using distinct_concat_nth[OF part(3) _ r(1) _ r(2), of r'] by simp
    qed
  qed
  have c3: "\<forall>r<length ?fs. ?fs ! r \<noteq> [] \<and>
              (\<forall>i \<in> set (?fs ! r). i < ?n \<and> rank (?s ! i) = int r + 1)"
    using part(2) rk front_lt by simp
  have c4: "\<forall>i<?n. 1 \<le> rank (?s ! i) \<and> rank (?s ! i) \<le> int (length ?fs)"
  proof (intro allI impI)
    fix i assume i: "i < ?n"
    obtain r where r: "r < length ?fs" "i \<in> set (?fs ! r)" using in_front[OF i] by auto
    show "1 \<le> rank (?s ! i) \<and> rank (?s ! i) \<le> int (length ?fs)"
      using rk[OF r] r(1) by simp
  qed
  have c5: "\<forall>r. 1 \<le> r \<and> r \<le> int (length ?fs) \<longrightarrow> (\<exists>i<?n. rank (?s ! i) = r)"
  proof (intro allI impI)
    fix r :: int assume r: "1 \<le> r \<and> r \<le> int (length ?fs)"
    then have lt: "nat (r - 1) < length ?fs" by linarith
    then have "?fs ! nat (r - 1) \<noteq> []" using part(2) by simp
    then obtain i where i: "i \<in> set (?fs ! nat (r - 1))" by (cases "?fs ! nat (r - 1)") auto
    have "rank (?s ! i) = r" using rk[OF lt i] r by simp
    then show "\<exists>i<?n. rank (?s ! i) = r" using front_lt[OF lt i] by auto
  qed
  have c6: "\<forall>i<?n. \<forall>j<?n. rank (?s ! i) = 1 \<longrightarrow> rank (?s ! j) = 1 \<longrightarrow>
              \<not> dominates (?s ! i) (?s ! j)"
  proof (intro allI impI)
    fix i j assume i: "i < ?n" and j: "j < ?n" and rj: "rank (?s ! j) = 1"
    obtain r where r: "r < length ?fs" "j \<in> set (?fs ! r)" using in_front[OF j] by auto
    have "r = 0" using rk[OF r] rj by simp
    then have "j \<in> set (concat (take 1 ?fs))" using r by (cases ?fs) auto
    then have "j \<in> {j. j < length pop \<and> dominators pop j = {}}" unfolding part(6) .
    then have "dominators pop j = {}" by simp
    then have "\<not> dominates (pop ! i) (pop ! j)" using i by (auto simp: dominators_def)
    then show "\<not> dominates (?s ! i) (?s ! j)"
      using flds(2)[OF i] flds(2)[OF j] by (simp add: dominates_def)
  qed
  show ?thesis using c1 c2 c3 c4 c5 c6 rankCombined_eq[OF assms] by blast
qed

lemma threeTradeoffs_objectives: "\<forall>ind \<in> set threeTradeoffs. length (objectives ind) = 3"
  by (simp add: threeTradeoffs_def tradeoffIndividual_def)

theorem nonDominatedSorting_ranks_partition_witness:
  "list_all (\<lambda>ind. length (objectives ind) = 3) threeTradeoffs \<and>
   length (nonDominatedSorting threeTradeoffs) = 3 \<and>
   1 \<le> rank (nonDominatedSorting threeTradeoffs ! 0) \<and>
   rankCombined threeTradeoffs =
     (nonDominatedSorting threeTradeoffs, snd (rankPopulation threeTradeoffs))"
proof -
  have l: "length threeTradeoffs = 3" by (simp add: threeTradeoffs_def)
  show ?thesis
    using nonDominatedSorting_ranks_partition[OF threeTradeoffs_objectives]
      threeTradeoffs_objectives l
    by (simp add: list_all_iff)
qed

text \<open>
  C9. For a population in which every individual has a three-element objective vector, and
  for every front that the Rank step produces: when the front has at most two members, all
  of them have an infinite crowding distance after the step; when it has more, then for each
  of the three objectives a member holding the least value of that objective and a member
  holding the greatest value have an infinite crowding distance. This holds for
  \<open>nonDominatedSorting\<close> and for the Rank step of a generation, which computes the same.
\<close>

theorem crowding_boundaries_infinite:
  assumes "\<forall>ind \<in> set pop. length (objectives ind) = 3"
  shows "(\<forall>front \<in> set (snd (rankPopulation pop)).
            (length front \<le> 2 \<longrightarrow>
               (\<forall>i \<in> set front. crowdingDistance (nonDominatedSorting pop ! i) = Infinity)) \<and>
            (length front > 2 \<longrightarrow>
               (\<forall>k<3. boundariesInfinite (nonDominatedSorting pop) front k))) \<and>
         rankCombined pop = (nonDominatedSorting pop, snd (rankPopulation pop))"
proof -
  let ?fs = "snd (rankPopulation pop)" and ?p = "fst (rankPopulation pop)"
  note part = rankPopulation_partition[OF assms]
  have len: "length ?p = length pop" using part(1) by (rule rankUpdate_length)
  have sub: "\<forall>front \<in> set ?fs. set front \<subseteq> {..<length ?p}" using part(2) len by simp
  have obj: "\<forall>front \<in> set ?fs. front \<noteq> [] \<longrightarrow> length (objectives (?p ! hd front)) = 3"
  proof (intro ballI impI)
    fix front assume f: "front \<in> set ?fs" "front \<noteq> []"
    then have "hd front \<in> set front" by simp
    moreover have "set front \<subseteq> {..<length pop}" using part(2) f(1) by simp
    ultimately have "hd front < length pop" by auto
    then show "length (objectives (?p ! hd front)) = 3"
      using part(1) assms by (simp add: rankUpdate_def)
  qed
  have "\<forall>front \<in> set ?fs. frontCrowded 3 (fold crowdingFront ?fs ?p) front"
    using fold_crowdingFront_crowded[OF sub obj] .
  then have "\<forall>front \<in> set ?fs. frontCrowded 3 (nonDominatedSorting pop) front"
    by (simp add: nonDominatedSorting_alt)
  then show ?thesis
    using rankCombined_eq[OF assms] unfolding frontCrowded_def by simp
qed

theorem crowding_boundaries_infinite_witness:
  "list_all (\<lambda>ind. length (objectives ind) = 3) threeTradeoffs \<and>
   snd (rankPopulation threeTradeoffs) = [[0, 1, 2]] \<and>
   boundariesInfinite (nonDominatedSorting threeTradeoffs) [0, 1, 2] 0 \<and>
   boundariesInfinite (nonDominatedSorting threeTradeoffs) [0, 1, 2] 1 \<and>
   boundariesInfinite (nonDominatedSorting threeTradeoffs) [0, 1, 2] 2"
proof -
  have c: "(\<forall>front \<in> set (snd (rankPopulation threeTradeoffs)).
            (length front \<le> 2 \<longrightarrow>
               (\<forall>i \<in> set front.
                  crowdingDistance (nonDominatedSorting threeTradeoffs ! i) = Infinity)) \<and>
            (length front > 2 \<longrightarrow>
               (\<forall>k<3. boundariesInfinite (nonDominatedSorting threeTradeoffs) front k)))"
    and e: "rankCombined threeTradeoffs =
            (nonDominatedSorting threeTradeoffs, snd (rankPopulation threeTradeoffs))"
    using crowding_boundaries_infinite[OF threeTradeoffs_objectives] by simp_all
  have f: "snd (rankPopulation threeTradeoffs) = [[0, 1, 2]]"
    using e unfolding rankCombined_once by simp
  have "\<forall>k<3. boundariesInfinite (nonDominatedSorting threeTradeoffs) [0, 1, 2] k"
    using c unfolding f by simp
  then show ?thesis
    using f threeTradeoffs_objectives by (simp add: list_all_iff)
qed

section \<open>Properties of the generational loop\<close>

subsection \<open>The random source stays valid\<close>

declare loadProfileLoop.simps [simp del]

lemma loadProfileLoop_snd:
  "snd (loadProfileLoop baseLoad steps i loadProfile g) = sdrop (nat (steps - i)) g"
proof (induction "nat (steps - i)" arbitrary: i loadProfile g)
  case 0
  then have "\<not> i < steps" by simp
  then show ?case using 0 by (subst loadProfileLoop.simps) simp
next
  case (Suc n)
  then have lt: "i < steps" and n: "n = nat (steps - (i + 1))" by simp_all
  have "snd (loadProfileLoop baseLoad steps (i + 1) lp (stl g)) = sdrop n (stl g)" for lp
    using Suc.hyps(1)[OF n, of lp "stl g"] n by simp
  then show ?case
    using lt Suc.hyps(2)[symmetric]
    by (subst loadProfileLoop.simps) (simp add: Let_def dist_rng_def)
qed

lemma loadProfileLoop_rng:
  "rng_ok g \<Longrightarrow> rng_ok (snd (loadProfileLoop baseLoad steps i loadProfile g))"
  by (simp add: loadProfileLoop_snd rng_ok_sdrop)

lemma evaluateObjectives_try_snd:
  "snd (evaluateObjectives_try p duration loadFactor g) =
   snd (generateDynamicLoadProfile p duration loadFactor g)"
  by (simp add: evaluateObjectives_try_def case_prod_beta Let_def)

lemma evaluateObjectives_snd:
  "snd (evaluateObjectives ind duration loadFactor g) =
   snd (generateDynamicLoadProfile (params ind) duration loadFactor g)"
proof -
  obtain r g' where t: "evaluateObjectives_try (params ind) duration loadFactor g = (r, g')"
    by (cases "evaluateObjectives_try (params ind) duration loadFactor g")
  have "snd (evaluateObjectives ind duration loadFactor g) = g'"
    by (cases r) (simp_all add: evaluateObjectives_def t)
  then show ?thesis
    using evaluateObjectives_try_snd[of "params ind" duration loadFactor g] t by simp
qed

lemma evaluateObjectives_rng:
  "rng_ok g \<Longrightarrow> rng_ok (snd (evaluateObjectives ind duration loadFactor g))"
  unfolding evaluateObjectives_snd generateDynamicLoadProfile_def Let_def
  by (rule loadProfileLoop_rng)

lemma generateRandomParameters_rng: "snd (generateRandomParameters g) = sdrop 10 g"
  by (simp add: generateRandomParameters_def Let_def dist_rng_def numeral_eq_Suc)

lemma mutate_rng:
  assumes g: "rng_ok g"
  shows "rng_ok (snd (mutate ind g))"
proof -
  let ?p = "params ind"
  obtain v1 g1 where s1: "mutateContinuous (powerRating ?p) 0.5 50.0 g = (v1, g1)"
    by (cases "mutateContinuous (powerRating ?p) 0.5 50.0 g")
  obtain v2 g2 where s2: "mutateContinuous (real_of_int (maxSpeed ?p)) 1000 30000 g1 = (v2, g2)"
    by (cases "mutateContinuous (real_of_int (maxSpeed ?p)) 1000 30000 g1")
  obtain v3 g3 where s3: "mutateContinuous (wheelDiameter ?p) 50.0 1000.0 g2 = (v3, g3)"
    by (cases "mutateContinuous (wheelDiameter ?p) 50.0 1000.0 g2")
  obtain v4 g4 where s4: "mutateContinuous (bearingPreload ?p) 100.0 2000.0 g3 = (v4, g4)"
    by (cases "mutateContinuous (bearingPreload ?p) 100.0 2000.0 g3")
  obtain v5 g5 where s5: "mutateContinuous (alignmentTolerance ?p) 0.0001 0.01 g4 = (v5, g5)"
    by (cases "mutateContinuous (alignmentTolerance ?p) 0.0001 0.01 g4")
  obtain c1 g6 where s6: "mutateCategorical spindleTypes (spindleType ?p) g5 = (c1, g6)"
    by (cases "mutateCategorical spindleTypes (spindleType ?p) g5")
  obtain c2 g7 where s7: "mutateCategorical bearingTypes (bearingType ?p) g6 = (c2, g7)"
    by (cases "mutateCategorical bearingTypes (bearingType ?p) g6")
  obtain c3 g8 where s8: "mutateCategorical coolingTypes (coolingType ?p) g7 = (c3, g8)"
    by (cases "mutateCategorical coolingTypes (coolingType ?p) g7")
  obtain c4 g9 where s9: "mutateCategorical lubricationTypes (lubricationType ?p) g8 = (c4, g9)"
    by (cases "mutateCategorical lubricationTypes (lubricationType ?p) g8")
  obtain c5 g10 where s10: "mutateCategorical toolInterfaces (toolInterface ?p) g9 = (c5, g10)"
    by (cases "mutateCategorical toolInterfaces (toolInterface ?p) g9")
  have r1: "rng_ok g1" using mutateContinuous_rng[OF g, of "powerRating ?p" "0.5" "50.0"] s1 by simp
  have r2: "rng_ok g2"
    using mutateContinuous_rng[OF r1, of "real_of_int (maxSpeed ?p)" 1000 30000] s2 by simp
  have r3: "rng_ok g3"
    using mutateContinuous_rng[OF r2, of "wheelDiameter ?p" "50.0" "1000.0"] s3 by simp
  have r4: "rng_ok g4"
    using mutateContinuous_rng[OF r3, of "bearingPreload ?p" "100.0" "2000.0"] s4 by simp
  have r5: "rng_ok g5"
    using mutateContinuous_rng[OF r4, of "alignmentTolerance ?p" "0.0001" "0.01"] s5 by simp
  have r6: "rng_ok g6"
    using mutateCategorical_rng[OF r5, of spindleTypes "spindleType ?p"] s6 by simp
  have r7: "rng_ok g7"
    using mutateCategorical_rng[OF r6, of bearingTypes "bearingType ?p"] s7 by simp
  have r8: "rng_ok g8"
    using mutateCategorical_rng[OF r7, of coolingTypes "coolingType ?p"] s8 by simp
  have r9: "rng_ok g9"
    using mutateCategorical_rng[OF r8, of lubricationTypes "lubricationType ?p"] s9 by simp
  have r10: "rng_ok g10"
    using mutateCategorical_rng[OF r9, of toolInterfaces "toolInterface ?p"] s10 by simp
  have "snd (mutate ind g) = g10"
    unfolding mutate_def Let_def s1 s2 s3 s4 s5 s6 s7 s8 s9 s10 prod.case by simp
  then show ?thesis using r10 by simp
qed

subsection \<open>The offspring loop\<close>

declare createOffspring.simps [simp del]

lemma createOffspring_ok:
  assumes Q: "\<And>ind g. Q (objectives (fst (evaluateObjectives ind duration loadFactor g)))"
    and "0 < populationSize" "length population = nat populationSize" "rng_ok g"
    and "\<forall>ind \<in> set offspring. Q (objectives ind)" "length offspring \<le> nat populationSize"
  shows "\<exists>offspring' g'.
           createOffspring duration loadFactor populationSize population offspring (g, e) =
             (Inr offspring', g', e + (nat populationSize - length offspring)) \<and>
           length offspring' = nat populationSize \<and> rng_ok g' \<and>
           (\<forall>ind \<in> set offspring'. Q (objectives ind))"
  using assms
proof (induction duration loadFactor populationSize population offspring "(g, e)"
    arbitrary: g e rule: createOffspring.induct)
  case (1 duration loadFactor populationSize population offspring g e)
  show ?case
  proof (cases "int (length offspring) < populationSize")
    case False
    then have "length offspring = nat populationSize" using "1.prems"(6) by simp
    then show ?thesis
      using False "1.prems" by (subst createOffspring.simps) simp
  next
    case True
    obtain first second where sp:
      "selectParents populationSize population g = (Inr (first, second), stl (stl g))"
      using selectParents_ok[OF "1.prems"(4,2,3)] by auto
    obtain child g3 where cr: "crossover first second (stl (stl g)) = (child, g3)"
      by (cases "crossover first second (stl (stl g))")
    obtain mutated g4 where mu: "mutate child g3 = (mutated, g4)"
      by (cases "mutate child g3")
    obtain evaluated g5 where ev:
      "evaluateObjectives mutated duration loadFactor g4 = (evaluated, g5)"
      by (cases "evaluateObjectives mutated duration loadFactor g4")
    have g2: "rng_ok (stl (stl g))" using "1.prems"(4) by (simp add: rng_ok_stl)
    have g3: "rng_ok g3" using crossover_rng[of first second "stl (stl g)"] cr
        rng_ok_sdrop[OF g2, of 10] by simp
    have g4: "rng_ok g4" using mutate_rng[OF g3, of child] mu by simp
    have g5: "rng_ok g5" using evaluateObjectives_rng[OF g4, of mutated duration loadFactor] ev
      by simp
    have q: "Q (objectives evaluated)" using "1.prems"(1)[of mutated g4] by (simp add: ev)
    have unfold: "createOffspring duration loadFactor populationSize population offspring (g, e) =
          createOffspring duration loadFactor populationSize population (offspring @ [evaluated])
            (g5, e + 1)"
      using True by (subst createOffspring.simps) (simp add: sp cr mu ev)
    have len: "length (offspring @ [evaluated]) \<le> nat populationSize" using True by simp
    have qs: "\<forall>ind \<in> set (offspring @ [evaluated]). Q (objectives ind)"
      using "1.prems"(5) q by simp
    have "\<exists>offspring' g'.
           createOffspring duration loadFactor populationSize population (offspring @ [evaluated])
             (g5, e + 1) =
             (Inr offspring', g', e + 1 + (nat populationSize - length (offspring @ [evaluated]))) \<and>
           length offspring' = nat populationSize \<and> rng_ok g' \<and>
           (\<forall>ind \<in> set offspring'. Q (objectives ind))"
      by (rule "1.hyps"[OF True sp[symmetric] refl refl cr[symmetric] mu[symmetric] ev[symmetric]
          "1.prems"(1,2,3) g5 qs len])
    then obtain offspring' g' where r:
      "createOffspring duration loadFactor populationSize population (offspring @ [evaluated])
             (g5, e + 1) =
             (Inr offspring', g', e + 1 + (nat populationSize - length (offspring @ [evaluated])))"
      "length offspring' = nat populationSize" "rng_ok g'"
      "\<forall>ind \<in> set offspring'. Q (objectives ind)"
      by blast
    have eq: "e + 1 + (nat populationSize - length (offspring @ [evaluated])) =
                   e + (nat populationSize - length offspring)"
      using True by simp
    have "createOffspring duration loadFactor populationSize population offspring (g, e) =
            (Inr offspring', g', e + (nat populationSize - length offspring))"
      unfolding unfold r(1) eq ..
    then show ?thesis using r(2,3,4) by blast
  qed
qed

subsection \<open>Initialisation\<close>

lemma initializePopulation_prefix:
  assumes Q: "\<And>ind g. Q (objectives (fst (evaluateObjectives ind duration loadFactor g)))"
    and g: "rng_ok g" and k: "k \<le> n"
  shows "\<exists>pop g'. fold (initializeIndividual duration loadFactor) [0..<k]
                     (replicate n newIndividual, g, e) = (pop, g', e + k) \<and>
           length pop = n \<and> rng_ok g' \<and> (\<forall>i<k. Q (objectives (pop ! i)))"
  using k
proof (induction k)
  case 0
  then show ?case using g by simp
next
  case (Suc k)
  then obtain pop g' where st:
    "fold (initializeIndividual duration loadFactor) [0..<k] (replicate n newIndividual, g, e) =
       (pop, g', e + k)"
    and len: "length pop = n" and g': "rng_ok g'" and q: "\<forall>i<k. Q (objectives (pop ! i))"
    by auto
  obtain p g1 where gp: "generateRandomParameters g' = (p, g1)"
    by (cases "generateRandomParameters g'")
  obtain ind g2 where ev:
    "evaluateObjectives ((pop ! k)\<lparr>params := p\<rparr>) duration loadFactor g1 = (ind, g2)"
    by (cases "evaluateObjectives ((pop ! k)\<lparr>params := p\<rparr>) duration loadFactor g1")
  have g1: "rng_ok g1"
    using generateRandomParameters_rng[of g'] gp rng_ok_sdrop[OF g', of 10] by simp
  have g2: "rng_ok g2"
    using evaluateObjectives_rng[OF g1, of "(pop ! k)\<lparr>params := p\<rparr>" duration loadFactor] ev
    by simp
  have qi: "Q (objectives ind)" using Q[of "(pop ! k)\<lparr>params := p\<rparr>" g1] by (simp add: ev)
  have step: "initializeIndividual duration loadFactor k (pop, g', e + k) =
                (pop[k := ind], g2, e + Suc k)"
    by (simp add: initializeIndividual_def gp ev)
  have "\<forall>i<Suc k. Q (objectives (pop[k := ind] ! i))"
    using q qi Suc.prems len by (auto simp: nth_list_update_if less_Suc_eq)
  then show ?case using st step len g2 by simp
qed

lemma initializePopulation_ok:
  assumes Q: "\<And>ind g. Q (objectives (fst (evaluateObjectives ind duration loadFactor g)))"
    and g: "rng_ok g"
  shows "\<exists>pop g'. initializePopulation duration loadFactor populationSize (g, e) =
                     (pop, g', e + nat populationSize) \<and>
           length pop = nat populationSize \<and> rng_ok g' \<and>
           (\<forall>ind \<in> set pop. Q (objectives ind))"
proof -
  obtain pop g' where st:
    "fold (initializeIndividual duration loadFactor) [0..<nat populationSize]
        (replicate (nat populationSize) newIndividual, g, e) = (pop, g', e + nat populationSize)"
    and len: "length pop = nat populationSize" and g': "rng_ok g'"
    and q: "\<forall>i<nat populationSize. Q (objectives (pop ! i))"
    using initializePopulation_prefix[of Q duration loadFactor g "nat populationSize"
        "nat populationSize" e, OF Q g] by auto
  have "\<forall>ind \<in> set pop. Q (objectives ind)"
    using q len by (auto simp: in_set_conv_nth)
  then show ?thesis using st len g' by (simp add: initializePopulation_def)
qed

subsection \<open>Selection of the next generation\<close>

declare addWholeFronts.simps [simp del]

lemma fold_add_front:
  assumes "set front \<subseteq> {..<length combined}"
  shows "length (fold (\<lambda>i p. if i < length combined then p @ [combined ! i] else p)
                   front population) = length population + length front \<and>
         set (fold (\<lambda>i p. if i < length combined then p @ [combined ! i] else p)
                front population) \<subseteq> set population \<union> set combined"
  using assms
proof (induction front arbitrary: population)
  case Nil
  then show ?case by simp
next
  case (Cons a front)
  have a: "a < length combined" using Cons.prems by simp
  have ih: "length (fold (\<lambda>i p. if i < length combined then p @ [combined ! i] else p)
                   front (population @ [combined ! a])) =
            length (population @ [combined ! a]) + length front"
    "set (fold (\<lambda>i p. if i < length combined then p @ [combined ! i] else p)
                front (population @ [combined ! a])) \<subseteq>
     set (population @ [combined ! a]) \<union> set combined"
    using Cons.IH[of "population @ [combined ! a]"] Cons.prems by simp_all
  have "combined ! a \<in> set combined" using a by simp
  then show ?case using ih a by auto
qed

lemma addWholeFronts_ok:
  assumes "\<forall>front \<in> set fronts. set front \<subseteq> {..<length combined}"
    and "length population \<le> nat populationSize" and "frontIdx \<le> length fronts"
  shows "\<exists>population' idx.
     addWholeFronts populationSize combined fronts frontIdx population = (population', idx) \<and>
     idx \<le> length fronts \<and> length population' \<le> nat populationSize \<and>
     length population' + length (concat (drop idx fronts)) =
       length population + length (concat (drop frontIdx fronts)) \<and>
     (idx < length fronts \<longrightarrow> nat populationSize < length population' + length (fronts ! idx)) \<and>
     set population' \<subseteq> set population \<union> set combined"
  using assms
proof (induction populationSize combined fronts frontIdx population
    rule: addWholeFronts.induct)
  case (1 populationSize combined fronts frontIdx population)
  show ?case
  proof (cases "frontIdx < length fronts \<and>
                length population + length (fronts ! frontIdx) \<le> nat populationSize")
    case True
    let ?pop = "fold (\<lambda>i p. if i < length combined then p @ [combined ! i] else p)
                  (fronts ! frontIdx) population"
    have v: "set (fronts ! frontIdx) \<subseteq> {..<length combined}"
      using "1.prems"(1) True by simp
    have len: "length ?pop = length population + length (fronts ! frontIdx)"
      and sub: "set ?pop \<subseteq> set population \<union> set combined"
      using fold_add_front[OF v, of population] by simp_all
    have le: "length ?pop \<le> nat populationSize" using len True by simp
    have idx: "frontIdx + 1 \<le> length fronts" using True by simp
    obtain population' idx where r:
      "addWholeFronts populationSize combined fronts (frontIdx + 1) ?pop = (population', idx)"
      "idx \<le> length fronts" "length population' \<le> nat populationSize"
      "length population' + length (concat (drop idx fronts)) =
         length ?pop + length (concat (drop (frontIdx + 1) fronts))"
      "idx < length fronts \<longrightarrow> nat populationSize < length population' + length (fronts ! idx)"
      "set population' \<subseteq> set ?pop \<union> set combined"
      using "1.IH"[OF True "1.prems"(1) le idx] by blast
    have d: "drop frontIdx fronts = fronts ! frontIdx # drop (frontIdx + 1) fronts"
      using True by (simp add: Cons_nth_drop_Suc)
    have c: "length population' + length (concat (drop idx fronts)) =
             length population + length (concat (drop frontIdx fronts))"
      using r(4) len unfolding d by simp
    have u: "addWholeFronts populationSize combined fronts frontIdx population =
             (population', idx)"
      using True r(1) by (subst addWholeFronts.simps) simp
    have s: "set population' \<subseteq> set population \<union> set combined" using r(6) sub by auto
    show ?thesis using u r(2,3,5) c s by blast
  next
    case False
    have u: "addWholeFronts populationSize combined fronts frontIdx population =
             (population, frontIdx)"
      by (subst addWholeFronts.simps) (simp only: False if_False)
    have "frontIdx < length fronts \<longrightarrow>
          nat populationSize < length population + length (fronts ! frontIdx)"
      using False by auto
    then show ?thesis using u "1.prems"(2,3) by auto
  qed
qed

lemma fold_add_sorted:
  assumes "\<forall>i<m. sortedFront ! i < length combined"
  shows "length (fold (\<lambda>i p. if sortedFront ! i < length combined
                               then p @ [combined ! (sortedFront ! i)] else p)
                   [0..<m] population) = length population + m \<and>
         set (fold (\<lambda>i p. if sortedFront ! i < length combined
                            then p @ [combined ! (sortedFront ! i)] else p)
                [0..<m] population) \<subseteq> set population \<union> set combined"
  using assms
proof (induction m)
  case 0
  then show ?case by simp
next
  case (Suc m)
  have "combined ! (sortedFront ! m) \<in> set combined" using Suc.prems by simp
  then show ?case using Suc by auto
qed

lemma selectNextGeneration_ok:
  assumes valid: "\<forall>front \<in> set fronts. set front \<subseteq> {..<length combined}"
    and total: "length (concat fronts) = length combined"
    and enough: "nat populationSize \<le> length combined" and pos: "0 < populationSize"
  shows "\<exists>population'. selectNextGeneration populationSize combined fronts = Inr population' \<and>
           length population' = nat populationSize \<and> set population' \<subseteq> set combined"
proof -
  obtain population idx where r:
    "addWholeFronts populationSize combined fronts 0 [] = (population, idx)"
    "idx \<le> length fronts" "length population \<le> nat populationSize"
    "length population + length (concat (drop idx fronts)) = length combined"
    "idx < length fronts \<longrightarrow> nat populationSize < length population + length (fronts ! idx)"
    "set population \<subseteq> set combined"
    using addWholeFronts_ok[OF valid, of "[]" populationSize 0] total by auto
  define sorted where "sorted =
     sortBy (\<lambda>a b. if a \<ge> length combined \<or> b \<ge> length combined then False
                    else xgreater (crowdingDistance (combined ! a))
                                  (crowdingDistance (combined ! b))) (fronts ! idx)"
  define remaining where "remaining = nat populationSize - length population"
  define filled where "filled =
     fold (\<lambda>i p. if sorted ! i < length combined then p @ [combined ! (sorted ! i)] else p)
       [0..<min remaining (length sorted)] population"
  define nextgen where "nextgen =
     (if length population < nat populationSize \<and> idx < length fronts
      then filled else population)"
  have sel: "selectNextGeneration populationSize combined fronts =
             (if nextgen = [] then Inl (Runtime_error ''Population is empty after selection'')
              else Inr nextgen)"
    unfolding selectNextGeneration_def r(1) prod.case Let_def nextgen_def filled_def
      remaining_def sorted_def ..
  have slen: "length sorted = length (fronts ! idx)" and sset: "set sorted = set (fronts ! idx)"
    by (simp_all add: sorted_def length_sortBy set_sortBy)
  have res: "length nextgen = nat populationSize \<and> set nextgen \<subseteq> set combined"
  proof (cases "length population < nat populationSize \<and> idx < length fronts")
    case True
    have m: "min remaining (length sorted) = remaining"
      using True r(5) by (simp add: slen remaining_def)
    have "\<forall>i<remaining. sorted ! i < length combined"
    proof (intro allI impI)
      fix i assume "i < remaining"
      then have "i < length sorted" using m by linarith
      then have "sorted ! i \<in> set (fronts ! idx)"
        using nth_mem[of i sorted] by (simp add: sset)
      moreover have "set (fronts ! idx) \<subseteq> {..<length combined}" using valid True by simp
      ultimately show "sorted ! i < length combined" by blast
    qed
    then have "length filled = length population + remaining \<and>
               set filled \<subseteq> set population \<union> set combined"
      unfolding filled_def m by (rule fold_add_sorted)
    then show ?thesis using True r(6) by (auto simp: nextgen_def remaining_def)
  next
    case False
    have "length population = nat populationSize"
    proof (cases "idx < length fronts")
      case True
      then show ?thesis using False r(3) by simp
    next
      case f: False
      then have "drop idx fronts = []" by simp
      then show ?thesis using r(3,4) enough by simp
    qed
    then show ?thesis using False r(6) by (auto simp: nextgen_def)
  qed
  then have "nextgen \<noteq> []" using pos by auto
  then show ?thesis using sel res by simp
qed

subsection \<open>One generation and the whole run\<close>

lemma rankCombined_fields:
  assumes objs: "\<forall>ind \<in> set combined. length (objectives ind) = 3"
    and x: "x \<in> set (fst (rankCombined combined))"
  shows "\<exists>i<length combined. x = nonDominatedSorting combined ! i \<and>
           objectives x = objectives (combined ! i) \<and>
           rank x = rank (fst (rankPopulation combined) ! i)"
proof -
  have "x \<in> set (nonDominatedSorting combined)" using x rankCombined_eq[OF objs] by simp
  then obtain i where i: "i < length (nonDominatedSorting combined)"
    "x = nonDominatedSorting combined ! i"
    by (auto simp: in_set_conv_nth)
  have il: "i < length combined" using i(1) nonDominatedSorting_fields(1)[OF objs] by simp
  show ?thesis using il i(2) nonDominatedSorting_fields(2)[OF objs il] by auto
qed

lemma generation_ok:
  assumes Q: "\<And>ind g. Q (objectives (fst (evaluateObjectives ind duration loadFactor g)))"
    and Qlen: "\<And>v. Q v \<Longrightarrow> length v = 3"
    and pos: "0 < populationSize" and len: "length population = nat populationSize"
    and g: "rng_ok g" and qp: "\<forall>ind \<in> set population. Q (objectives ind)"
  shows "\<exists>offspring population' g'.
     createOffspring duration loadFactor populationSize population [] (g, e) =
       (Inr offspring, g', e + nat populationSize) \<and>
     length (combinePopulations population offspring) = 2 * nat populationSize \<and>
     (\<forall>ind \<in> set (combinePopulations population offspring). Q (objectives ind)) \<and>
     generation duration loadFactor populationSize (population, g, e) =
       (Inr population', g', e + nat populationSize) \<and>
     length population' = nat populationSize \<and> rng_ok g' \<and>
     set population' \<subseteq> set (fst (rankCombined (combinePopulations population offspring)))"
proof -
  obtain offspring g' where co:
    "createOffspring duration loadFactor populationSize population [] (g, e) =
       (Inr offspring, g', e + nat populationSize)"
    and lo: "length offspring = nat populationSize" and g': "rng_ok g'"
    and qo: "\<forall>ind \<in> set offspring. Q (objectives ind)"
    using createOffspring_ok[of Q duration loadFactor populationSize population g "[]" e,
        OF Q pos len g] by auto
  define combined where "combined = combinePopulations population offspring"
  have lc: "length combined = 2 * nat populationSize"
    by (simp add: combined_def combinePopulations_def len lo)
  have qc: "\<forall>ind \<in> set combined. Q (objectives ind)"
    using qp qo by (auto simp: combined_def combinePopulations_def)
  have objs: "\<forall>ind \<in> set combined. length (objectives ind) = 3" using qc Qlen by blast
  have ne: "combined \<noteq> []" using lc pos by auto
  define fronts where "fronts = snd (rankPopulation combined)"
  define crowded where "crowded = nonDominatedSorting combined"
  have rc: "rankCombined combined = (crowded, fronts)"
    using rankCombined_eq[OF objs] by (simp add: crowded_def fronts_def)
  note part = rankPopulation_partition[OF objs]
  have lcr: "length crowded = length combined"
    using nonDominatedSorting_fields(1)[OF objs] by (simp add: crowded_def)
  have valid: "\<forall>front \<in> set fronts. set front \<subseteq> {..<length crowded}"
    using part(2) by (simp add: fronts_def lcr)
  have "card (set (concat fronts)) = length (concat fronts)"
    unfolding fronts_def by (rule distinct_card[OF part(3)])
  then have total: "length (concat fronts) = length crowded"
    using part(4) by (simp add: fronts_def lcr)
  have enough: "nat populationSize \<le> length crowded" using lc lcr by simp
  obtain population' where sel:
    "selectNextGeneration populationSize crowded fronts = Inr population'"
    and lp': "length population' = nat populationSize"
    and sp': "set population' \<subseteq> set crowded"
    using selectNextGeneration_ok[OF valid total enough pos] by auto
  have gen: "generation duration loadFactor populationSize (population, g, e) =
               (Inr population', g', e + nat populationSize)"
    using ne by (simp add: generation_def co combined_def[symmetric] rc sel)
  show ?thesis
    using co lc qc gen lp' g' sp' rc unfolding combined_def by auto
qed

lemma runGenerations_ok:
  assumes Q: "\<And>ind g. Q (objectives (fst (evaluateObjectives ind duration loadFactor g)))"
    and Qlen: "\<And>v. Q v \<Longrightarrow> length v = 3"
    and IQ: "\<And>x. I x \<Longrightarrow> Q (objectives x)"
    and Irank: "\<And>combined. \<forall>ind \<in> set combined. Q (objectives ind) \<Longrightarrow>
                  \<forall>x \<in> set (fst (rankCombined combined)). I x"
    and pos: "0 < populationSize" and len: "length population = nat populationSize"
    and g: "rng_ok g" and ip: "\<forall>x \<in> set population. I x"
  shows "\<exists>population' g'.
     runGenerations duration loadFactor populationSize n (population, g, e) =
       (Inr population', g', e + n * nat populationSize) \<and>
     length population' = nat populationSize \<and> rng_ok g' \<and> (\<forall>x \<in> set population'. I x)"
  using len g ip
proof (induction n arbitrary: population g e)
  case 0
  then show ?case by simp
next
  case (Suc n)
  have qp: "\<forall>ind \<in> set population. Q (objectives ind)" using Suc.prems(3) IQ by blast
  obtain offspring population' g' where gen:
    "generation duration loadFactor populationSize (population, g, e) =
       (Inr population', g', e + nat populationSize)"
    and qc: "\<forall>ind \<in> set (combinePopulations population offspring). Q (objectives ind)"
    and lp': "length population' = nat populationSize" and g': "rng_ok g'"
    and sp': "set population' \<subseteq> set (fst (rankCombined (combinePopulations population offspring)))"
    using generation_ok[of Q duration loadFactor populationSize population g e,
        OF Q Qlen pos Suc.prems(1,2) qp] by blast
  have ip': "\<forall>x \<in> set population'. I x" using Irank[OF qc] sp' by blast
  obtain population'' g'' where r:
    "runGenerations duration loadFactor populationSize n
       (population', g', e + nat populationSize) =
       (Inr population'', g'', e + nat populationSize + n * nat populationSize)"
    "length population'' = nat populationSize" "rng_ok g''" "\<forall>x \<in> set population''. I x"
    using Suc.IH[OF lp' g' ip', of "e + nat populationSize"] by blast
  have "runGenerations duration loadFactor populationSize (Suc n) (population, g, e) =
        (Inr population'', g'', e + Suc n * nat populationSize)"
    using gen r(1) by (simp add: add.commute add.left_commute)
  then show ?case using r(2,3,4) by blast
qed

lemma validateInputs_None:
  "0 < duration \<Longrightarrow> 0.5 \<le> loadFactor \<Longrightarrow> loadFactor \<le> 2.0 \<Longrightarrow> 10 \<le> populationSize \<Longrightarrow>
   1 \<le> generations \<Longrightarrow> validateInputs duration loadFactor populationSize generations = None"
  by (simp add: validateInputs_def)

lemma run_ok:
  assumes Q: "\<And>ind g. Q (objectives (fst (evaluateObjectives ind duration loadFactor g)))"
    and Qlen: "\<And>v. Q v \<Longrightarrow> length v = 3"
    and IQ: "\<And>x. I x \<Longrightarrow> Q (objectives x)"
    and Irank: "\<And>combined. \<forall>ind \<in> set combined. Q (objectives ind) \<Longrightarrow>
                  \<forall>x \<in> set (fst (rankCombined combined)). I x"
    and pos: "0 < populationSize" and g: "rng_ok g"
  shows "\<exists>population0 g0.
     initializePopulation duration loadFactor populationSize (g, 0) =
       (population0, g0, nat populationSize) \<and>
     length population0 = nat populationSize \<and>
     length (nonDominatedSorting population0) = nat populationSize \<and>
     (\<forall>n. \<exists>population g'.
        runGenerations duration loadFactor populationSize n
          (nonDominatedSorting population0, g0, nat populationSize) =
          (Inr population, g', nat populationSize + n * nat populationSize) \<and>
        length population = nat populationSize \<and> rng_ok g' \<and> (\<forall>x \<in> set population. I x))"
proof -
  obtain population0 g0 where init:
    "initializePopulation duration loadFactor populationSize (g, 0) =
       (population0, g0, nat populationSize)"
    and l0: "length population0 = nat populationSize" and g0: "rng_ok g0"
    and q0: "\<forall>ind \<in> set population0. Q (objectives ind)"
    using initializePopulation_ok[of Q duration loadFactor g populationSize 0, OF Q g] by auto
  have objs: "\<forall>ind \<in> set population0. length (objectives ind) = 3" using q0 Qlen by blast
  have ls: "length (nonDominatedSorting population0) = nat populationSize"
    using nonDominatedSorting_fields(1)[OF objs] l0 by simp
  have "nonDominatedSorting population0 = fst (rankCombined population0)"
    using rankCombined_eq[OF objs] by simp
  then have i0: "\<forall>x \<in> set (nonDominatedSorting population0). I x"
    using Irank[OF q0] by simp
  have "\<exists>population g'.
        runGenerations duration loadFactor populationSize n
          (nonDominatedSorting population0, g0, nat populationSize) =
          (Inr population, g', nat populationSize + n * nat populationSize) \<and>
        length population = nat populationSize \<and> rng_ok g' \<and> (\<forall>x \<in> set population. I x)"
    for n
    by (rule runGenerations_ok[of Q duration loadFactor I populationSize
          "nonDominatedSorting population0" g0 n "nat populationSize",
          OF Q Qlen IQ Irank pos ls g0 i0])
  then show ?thesis using init l0 ls by blast
qed

subsection \<open>The size of the population\<close>

lemma rankCombined_three_objectives:
  assumes "\<forall>ind \<in> set combined. length (objectives ind) = 3"
  shows "\<forall>x \<in> set (fst (rankCombined combined)). length (objectives x) = 3"
proof
  fix x assume "x \<in> set (fst (rankCombined combined))"
  then obtain i where "i < length combined" "objectives x = objectives (combined ! i)"
    using rankCombined_fields[OF assms] by blast
  then show "length (objectives x) = 3" using assms by simp
qed

text \<open>
  C6. For every valid configuration (positive duration, load factor in \<open>[0.5, 2.0]\<close>,
  population size at least 10, at least one generation) and a random source that returns
  numbers of \<open>[0, 1)\<close>: the initial population has \<open>populationSize\<close> individuals; running any
  number \<open>n\<close> of generations ends without an error in a population of exactly
  \<open>populationSize\<close> individuals; in the generation that follows, the offspring loop returns
  and the combined population has \<open>2 * populationSize\<close> individuals; and the call of
  \<open>optimizeSpindleArrangement\<close> returns a Pareto front, not an error.
\<close>

theorem population_size_every_generation:
  assumes "0 < duration" "0.5 \<le> loadFactor" "loadFactor \<le> 2.0" "10 \<le> populationSize"
    "1 \<le> generations" "rng_ok g"
  shows "\<exists>population0 s0.
     initializePopulation duration loadFactor populationSize (g, 0) = (population0, s0) \<and>
     length (nonDominatedSorting population0) = nat populationSize \<and>
     (\<forall>n. \<exists>population s.
        runGenerations duration loadFactor populationSize n
          (nonDominatedSorting population0, s0) = (Inr population, s) \<and>
        length population = nat populationSize \<and>
        (\<exists>offspring s'.
           createOffspring duration loadFactor populationSize population [] s =
             (Inr offspring, s') \<and>
           length (combinePopulations population offspring) = 2 * nat populationSize)) \<and>
     (\<exists>front s. optimizeSpindleArrangement duration loadFactor populationSize generations g =
                  (Inr front, s))"
proof -
  let ?Q = "\<lambda>v :: real list. length v = 3"
  let ?I = "\<lambda>x :: Individual. length (objectives x) = 3"
  have Q: "\<And>ind g. ?Q (objectives (fst (evaluateObjectives ind duration loadFactor g)))"
    by (rule evaluateObjectives_length)
  have pos: "0 < populationSize" using assms(4) by simp
  obtain population0 g0 where init:
    "initializePopulation duration loadFactor populationSize (g, 0) =
       (population0, g0, nat populationSize)"
    and ls: "length (nonDominatedSorting population0) = nat populationSize"
    and run: "\<forall>n. \<exists>population g'.
        runGenerations duration loadFactor populationSize n
          (nonDominatedSorting population0, g0, nat populationSize) =
          (Inr population, g', nat populationSize + n * nat populationSize) \<and>
        length population = nat populationSize \<and> rng_ok g' \<and>
        (\<forall>x \<in> set population. ?I x)"
    using run_ok[of ?Q duration loadFactor ?I populationSize g, OF Q _ _ _ pos assms(6)]
      rankCombined_three_objectives by blast
  have every: "\<exists>population s.
        runGenerations duration loadFactor populationSize n
          (nonDominatedSorting population0, g0, nat populationSize) = (Inr population, s) \<and>
        length population = nat populationSize \<and>
        (\<exists>offspring s'.
           createOffspring duration loadFactor populationSize population [] s =
             (Inr offspring, s') \<and>
           length (combinePopulations population offspring) = 2 * nat populationSize)" for n
  proof -
    obtain population g' where r:
      "runGenerations duration loadFactor populationSize n
          (nonDominatedSorting population0, g0, nat populationSize) =
          (Inr population, g', nat populationSize + n * nat populationSize)"
      "length population = nat populationSize" "rng_ok g'"
      "\<forall>x \<in> set population. length (objectives x) = 3"
      using run by blast
    obtain offspring g'' where
      "createOffspring duration loadFactor populationSize population []
         (g', nat populationSize + n * nat populationSize) =
       (Inr offspring, g'', nat populationSize + n * nat populationSize + nat populationSize)"
      "length (combinePopulations population offspring) = 2 * nat populationSize"
      using generation_ok[of ?Q duration loadFactor populationSize population g'
          "nat populationSize + n * nat populationSize", OF Q _ pos r(2,3,4)] by auto
    then show ?thesis using r(1,2) by blast
  qed
  obtain final s where fin:
    "runGenerations duration loadFactor populationSize (nat generations)
          (nonDominatedSorting population0, g0, nat populationSize) = (Inr final, s)"
    using every[of "nat generations"] by blast
  have "optimizeSpindleArrangement duration loadFactor populationSize generations g =
          (Inr (paretoFront final), s)"
    using validateInputs_None[OF assms(1-5)]
    by (simp add: optimizeSpindleArrangement_def init fin)
  then show ?thesis using init ls every by blast
qed

theorem population_size_every_generation_witness:
  "rng_ok (sconst (1/2)) \<and>
   (\<exists>front s. optimizeSpindleArrangement 1 1 10 1 (sconst (1/2)) = (Inr front, s))"
  using population_size_every_generation[of 1 1 10 1 "sconst (1/2)"] rng_ok_sconst[of "1/2"]
  by simp blast

subsection \<open>A duration below one time step\<close>

lemma evaluateObjectives_short:
  assumes "0 < duration" "duration < 0.1"
  shows "evaluateObjectives ind duration loadFactor g =
           (ind\<lparr>objectives := worstCaseObjectives\<rparr>, g)"
  by (simp add: evaluateObjectives_def evaluateObjectives_try_def
      generateDynamicLoadProfile_short[OF assms])

lemma dominates_same_objectives: "objectives a = objectives b \<Longrightarrow> \<not> dominates a b"
  using dominates_irrefl[of a] by (simp add: dominates_def)

lemma rankCombined_all_worst:
  assumes w: "\<forall>ind \<in> set combined. objectives ind = worstCaseObjectives"
  shows "\<forall>x \<in> set (fst (rankCombined combined)).
           objectives x = worstCaseObjectives \<and> rank x = 1"
proof
  fix x assume x: "x \<in> set (fst (rankCombined combined))"
  have objs: "\<forall>ind \<in> set combined. length (objectives ind) = 3"
    using w by (simp add: worstCaseObjectives_def)
  note part = rankPopulation_partition[OF objs]
  obtain i where i: "i < length combined" "objectives x = objectives (combined ! i)"
    "rank x = rank (fst (rankPopulation combined) ! i)"
    using rankCombined_fields[OF objs x] by blast
  have "dominators combined i = {}"
    using w i(1) by (auto simp: dominators_def dominates_same_objectives)
  then have "i \<in> {j. j < length combined \<and> dominators combined j = {}}" using i(1) by simp
  then have mem: "i \<in> set (concat (take 1 (snd (rankPopulation combined))))"
    unfolding part(6) .
  then have ne: "snd (rankPopulation combined) \<noteq> []" by auto
  then have "i \<in> set (snd (rankPopulation combined) ! 0)"
    using mem by (cases "snd (rankPopulation combined)") auto
  then have "rank (fst (rankPopulation combined) ! i) = 1"
    using part(5) ne by fastforce
  then show "objectives x = worstCaseObjectives \<and> rank x = 1" using i w by simp
qed

text \<open>
  C10. For a valid configuration whose duration is positive but below \<open>0.1\<close>, and a random
  source that returns numbers of \<open>[0, 1)\<close>: \<open>generateDynamicLoadProfile\<close> returns the empty
  profile for every parameter set, so \<open>evaluateObjectives\<close> gives every individual the
  worst-case objectives \<open>{1e10, -1e-10, 1e10}\<close>; the run still completes, and the Pareto
  front it reports consists of \<open>populationSize\<close> individuals, all with these objectives.
\<close>

theorem short_duration_sentinel_front:
  assumes "0 < duration" "duration < 0.1" "0.5 \<le> loadFactor" "loadFactor \<le> 2.0"
    "10 \<le> populationSize" "1 \<le> generations" "rng_ok g"
  shows "(\<forall>p g'. generateDynamicLoadProfile p duration loadFactor g' = ([], g')) \<and>
     (\<forall>ind g'. evaluateObjectives ind duration loadFactor g' =
        (ind\<lparr>objectives := [10000000000, - (1 / 10000000000), 10000000000]\<rparr>, g')) \<and>
     (\<exists>front s.
        optimizeSpindleArrangement duration loadFactor populationSize generations g =
          (Inr front, s) \<and>
        length front = nat populationSize \<and>
        (\<forall>ind \<in> set front.
           objectives ind = [10000000000, - (1 / 10000000000), 10000000000]))"
proof -
  let ?Q = "\<lambda>v :: real list. v = worstCaseObjectives"
  let ?I = "\<lambda>x :: Individual. objectives x = worstCaseObjectives \<and> rank x = 1"
  have ev: "\<And>ind g'. evaluateObjectives ind duration loadFactor g' =
               (ind\<lparr>objectives := worstCaseObjectives\<rparr>, g')"
    by (rule evaluateObjectives_short[OF assms(1,2)])
  have Q: "\<And>ind g. ?Q (objectives (fst (evaluateObjectives ind duration loadFactor g)))"
    by (simp add: ev)
  have Qlen: "\<And>v. ?Q v \<Longrightarrow> length v = 3" by (simp add: worstCaseObjectives_def)
  have pos: "0 < populationSize" using assms(5) by simp
  obtain population0 g0 where init:
    "initializePopulation duration loadFactor populationSize (g, 0) =
       (population0, g0, nat populationSize)"
    and run: "\<forall>n. \<exists>population g'.
        runGenerations duration loadFactor populationSize n
          (nonDominatedSorting population0, g0, nat populationSize) =
          (Inr population, g', nat populationSize + n * nat populationSize) \<and>
        length population = nat populationSize \<and> rng_ok g' \<and>
        (\<forall>x \<in> set population. ?I x)"
    using run_ok[of ?Q duration loadFactor ?I populationSize g, OF Q Qlen _ _ pos assms(7)]
      rankCombined_all_worst by blast
  obtain final s where fin:
    "runGenerations duration loadFactor populationSize (nat generations)
          (nonDominatedSorting population0, g0, nat populationSize) = (Inr final, s)"
    and lf: "length final = nat populationSize"
    and wf: "\<forall>x \<in> set final. objectives x = worstCaseObjectives \<and> rank x = 1"
    using run by blast
  have pf: "paretoFront final = final" using wf by (simp add: paretoFront_def)
  have "optimizeSpindleArrangement duration loadFactor populationSize generations g =
          (Inr final, s)"
    using validateInputs_None[OF assms(1) assms(3-6)]
    by (simp add: optimizeSpindleArrangement_def init fin pf)
  then have "\<exists>front s.
        optimizeSpindleArrangement duration loadFactor populationSize generations g =
          (Inr front, s) \<and>
        length front = nat populationSize \<and>
        (\<forall>ind \<in> set front. objectives ind = worstCaseObjectives)"
    using lf wf by blast
  then show ?thesis
    using generateDynamicLoadProfile_short[OF assms(1,2)] ev
    by (simp add: worstCaseObjectives_def)
qed

theorem short_duration_sentinel_front_witness:
  "rng_ok (sconst (1/2)) \<and>
   (\<exists>front s. optimizeSpindleArrangement (1/20) 1 10 1 (sconst (1/2)) = (Inr front, s) \<and>
      length front = 10 \<and>
      (\<forall>ind \<in> set front. objectives ind = [10000000000, - (1 / 10000000000), 10000000000]))"
  using short_duration_sentinel_front[of "1/20" 1 10 1 "sconst (1/2)"] rng_ok_sconst[of "1/2"]
  by simp

subsection \<open>Old crowding distances survive the Rank step\<close>

text \<open>
  Neither crowding loop assigns a finite value: an individual that enters the Rank step with
  an infinite crowding distance leaves it with an infinite one, wherever it stands in its
  new front.
\<close>

lemma rank_step_keeps_infinite_distance:
  assumes objs: "\<forall>ind \<in> set combined. length (objectives ind) = 3"
    and i: "i < length combined" and inf: "crowdingDistance (combined ! i) = Infinity"
  shows "crowdingDistance (fst (rankCombined combined) ! i) = Infinity"
proof -
  have ru: "rankUpdate combined (fst (rankPopulation combined))"
    using rankPopulation_partition(1)[OF objs] .
  have 1: "crowdingDistance (fst (rankPopulation combined) ! i) = Infinity"
    using ru i inf by (simp add: rankUpdate_def)
  have 2: "i < length (fst (rankPopulation combined))"
    using rankUpdate_length[OF ru] i by simp
  have "crowdingDistance (nonDominatedSorting combined ! i) = Infinity"
    using crowdingUpdate_inf[OF nonDominatedSorting_crowdingUpdate 2 1] .
  then show ?thesis using rankCombined_eq[OF objs] by simp
qed

end
